theory Spec2Isabelle
  imports Complex_Main "HOL-Library.Multiset"
begin

section \<open>Chunked transcription: split planning, extraction, dispatch and merge\<close>

text \<open>
  A shallow embedding of the transcription scripts (\<^verbatim>\<open>transcription.ts\<close> and
  \<^verbatim>\<open>transcribe-openai.ts\<close>, which share the functions modelled here).

  Numbers. A JavaScript number is an IEEE double; here it is a real number, so rounding,
  NaN and the infinities are not represented. The one infinity of the source, the initial
  \<^verbatim>\<open>bestDistance = Infinity\<close>, is the value \<open>None\<close> of an option.

  Strings. A JavaScript string is a sequence of UTF-16 code units; here it is a list of
  natural numbers, the values of the units. \<open>ch c\<close> is the unit of an ASCII character and
  \<open>str s\<close> the string of an ASCII literal.

  Field names. The fields \<^verbatim>\<open>start\<close>, \<^verbatim>\<open>end\<close>, \<^verbatim>\<open>text\<close>, \<^verbatim>\<open>word\<close> and \<^verbatim>\<open>words\<close> occur in
  several interfaces of the source (and \<^verbatim>\<open>end\<close> and \<^verbatim>\<open>text\<close> are keywords here), so
  they carry the prefix of their record: \<open>sil_\<close> for a silence, \<open>seg_\<close> for a diarized
  segment, \<open>tw_\<close> for a timed word of a response and \<open>resp_\<close> for the response. The
  strings \<^verbatim>\<open>startOffset\<close> and \<^verbatim>\<open>endOffset\<close> of a transcription word are
  \<open>startOffsetStr\<close> and \<open>endOffsetStr\<close>, as \<^verbatim>\<open>startOffset\<close> is also the number of a
  chunk. All other names are the source's.
\<close>

subsection \<open>Strings\<close>

type_synonym jschar = nat

type_synonym jsstring = "jschar list"

definition ch :: "char \<Rightarrow> jschar" where
  "ch c = of_char c"

definition str :: "string \<Rightarrow> jsstring" where
  "str s = map ch s"

declare ch_def [simp] str_def [simp]

subsection \<open>Data model\<close>

text \<open>\<^verbatim>\<open>interface Silence { start: number; end: number }\<close>\<close>

record Silence =
  sil_start :: real
  sil_end :: real

text \<open>\<^verbatim>\<open>interface ChunkInfo { path: string; startOffset: number; duration: number }\<close>\<close>

record ChunkInfo =
  path :: jsstring
  startOffset :: real
  duration :: real

text \<open>\<^verbatim>\<open>interface DiarizedSegment { speaker: string; text: string; start: number; end: number }\<close>\<close>

record DiarizedSegment =
  speaker :: jsstring
  seg_text :: jsstring
  seg_start :: real
  seg_end :: real

text \<open>The element type of \<^verbatim>\<open>VerboseResponse.words\<close>: \<^verbatim>\<open>{ word: string; start: number; end: number }\<close>.\<close>

record TimedWord =
  tw_word :: jsstring
  tw_start :: real
  tw_end :: real

text \<open>
  \<^verbatim>\<open>interface VerboseResponse { text: string; words?: ...[]; segments?: DiarizedSegment[] }\<close>:
  an optional field is an option, \<open>None\<close> when it is absent.
\<close>

record VerboseResponse =
  resp_text :: jsstring
  resp_words :: "TimedWord list option"
  resp_segments :: "DiarizedSegment list option"

text \<open>
  \<^verbatim>\<open>interface TranscriptionWord\<close>. Its fields but \<^verbatim>\<open>word\<close> are optional in the
  interface; \<^verbatim>\<open>extractWords\<close>, the only producer, sets all of them.
\<close>

record TranscriptionWord =
  word :: jsstring
  startOffsetStr :: jsstring
  endOffsetStr :: jsstring
  startTime :: jsstring
  endTime :: jsstring
  speakerLabel :: jsstring

text \<open>The object each transcription callback of \<^verbatim>\<open>main\<close> returns: \<^verbatim>\<open>{ index, words, chunk }\<close>.\<close>

record ChunkResult =
  index :: nat
  words :: "TranscriptionWord list"
  chunk :: ChunkInfo

text \<open>One \<^verbatim>\<open>ffmpeg -i input -ss start -to end ... output\<close> call of \<^verbatim>\<open>splitAudio\<close>.\<close>

record ExtractCall =
  ex_input :: jsstring
  ex_ss :: real
  ex_to :: real
  ex_output :: jsstring

subsection \<open>Strings and number formatting of the runtime\<close>

text \<open>
  The whitespace of \<^verbatim>\<open>String.prototype.trim\<close> and of the class \<^verbatim>\<open>\s\<close> of regular
  expressions, which are the same set: tab, line feed, vertical tab, form feed, carriage
  return, space, no-break space (U+00A0), the other space separators of Unicode (U+1680,
  U+2000 to U+200A, U+202F, U+205F, U+3000), the line and paragraph separators (U+2028,
  U+2029) and the byte order mark (U+FEFF).
\<close>

definition isSpace :: "jschar \<Rightarrow> bool" where
  "isSpace c =
     (c \<in> {0x0009, 0x000A, 0x000B, 0x000C, 0x000D, 0x0020, 0x00A0, 0x1680, 0x2028, 0x2029,
            0x202F, 0x205F, 0x3000, 0xFEFF} \<or>
      (0x2000 \<le> c \<and> c \<le> 0x200A))"

text \<open>The character class \<^verbatim>\<open>\d\<close>: the digits 0 to 9.\<close>

definition isDigit :: "jschar \<Rightarrow> bool" where
  "isDigit c = (c \<in> set (str ''0123456789''))"

text \<open>The character class \<^verbatim>\<open>[\d.]\<close>.\<close>

definition isNumChar :: "jschar \<Rightarrow> bool" where
  "isNumChar c = (isDigit c \<or> c = ch CHR ''.'')"

text \<open>\<^verbatim>\<open>String.prototype.trim\<close>.\<close>

definition trim :: "jsstring \<Rightarrow> jsstring" where
  "trim s = rev (dropWhile isSpace (rev (dropWhile isSpace s)))"

text \<open>
  \<^verbatim>\<open>s.split(/\s+/)\<close>, as \<open>splitWs [] s\<close>: the pieces between the maximal runs of
  whitespace. A run at the very start leaves an empty first piece, one at the end an empty
  last piece, and the empty string gives the one piece \<open>''''\<close>.
\<close>

function splitWs :: "jsstring \<Rightarrow> jsstring \<Rightarrow> jsstring list" where
  "splitWs cur [] = [cur]"
| "splitWs cur (c # cs) =
     (if isSpace c then cur # splitWs [] (dropWhile isSpace cs) else splitWs (cur @ [c]) cs)"
  by pat_completeness auto
termination
  by (relation "measure (\<lambda>(cur, s). length s)") (auto simp: length_dropWhile_le le_imp_less_Suc)

text \<open>\<^verbatim>\<open>s.split(sep)\<close> for a one-character separator, as \<open>splitOn sep [] s\<close>.\<close>

fun splitOn :: "jschar \<Rightarrow> jsstring \<Rightarrow> jsstring \<Rightarrow> jsstring list" where
  "splitOn sep cur [] = [cur]"
| "splitOn sep cur (c # cs) =
     (if c = sep then cur # splitOn sep [] cs else splitOn sep (cur @ [c]) cs)"

text \<open>
  \<^verbatim>\<open>s.replace(pat, rep)\<close> for a string pattern: the leftmost occurrence of \<open>pat\<close> is
  replaced, wherever it stands, and only that one (\<open>rep\<close> has no \<^verbatim>\<open>$\<close> here).
\<close>

fun replaceFirst :: "jsstring \<Rightarrow> jsstring \<Rightarrow> jsstring \<Rightarrow> jsstring" where
  "replaceFirst pat rep [] = (if pat = [] then rep else [])"
| "replaceFirst pat rep (c # cs) =
     (if take (length pat) (c # cs) = pat then rep @ drop (length pat) (c # cs)
      else c # replaceFirst pat rep cs)"

text \<open>\<^verbatim>\<open>s.padStart(n, c)\<close> for a one-character filler.\<close>

definition padStart :: "nat \<Rightarrow> jschar \<Rightarrow> jsstring \<Rightarrow> jsstring" where
  "padStart n c s = replicate (n - length s) c @ s"

definition showDigit :: "nat \<Rightarrow> jschar" where
  "showDigit d = (str ''0123456789'') ! (d mod 10)"

text \<open>The decimal digits of a natural number.\<close>

fun showNat :: "nat \<Rightarrow> jsstring" where
  "showNat n = (if n < 10 then [showDigit n] else showNat (n div 10) @ [showDigit n])"

declare showNat.simps [simp del]

text \<open>\<^verbatim>\<open>Number.prototype.toString\<close> on an integer (below \<open>10^21\<close> in magnitude).\<close>

definition showInt :: "int \<Rightarrow> jsstring" where
  "showInt i = (if i < 0 then (str ''-'') @ showNat (nat (- i)) else showNat (nat i))"

text \<open>
  \<^verbatim>\<open>x.toFixed(f)\<close> (for a magnitude below \<open>10^21\<close>): the sign, then the integer \<open>n\<close>
  nearest to \<open>|x| * 10^f\<close>, the larger one at a tie, written with at least \<open>f + 1\<close> digits
  and a point before the last \<open>f\<close>.
\<close>

definition toFixed :: "nat \<Rightarrow> real \<Rightarrow> jsstring" where
  "toFixed f x =
     (let n = nat \<lfloor>\<bar>x\<bar> * 10 ^ f + 1 / 2\<rfloor>;
          m = padStart (f + 1) (ch CHR ''0'') (showNat n);
          k = length m
      in (if x < 0 then (str ''-'') else (str '''')) @ take (k - f) m @
         (if f = 0 then (str '''') else (str ''.'') @ drop (k - f) m))"

text \<open>The remainder \<^verbatim>\<open>x % y\<close>: the quotient is truncated towards zero.\<close>

definition jsRem :: "real \<Rightarrow> real \<Rightarrow> real" where
  "jsRem x y = x - y * of_int (if x / y < 0 then \<lceil>x / y\<rceil> else \<lfloor>x / y\<rfloor>)"

subsection \<open>Silence detection: parsing the detector's log\<close>

text \<open>
  \<^verbatim>\<open>line.match(/marker\s*([\d.]+)/)\<close> for a literal \<open>marker\<close>: the first capture group of
  the leftmost match, or \<open>None\<close>. At one position the expression matches when the marker
  stands there and, after all the whitespace that follows it, at least one of \<^verbatim>\<open>[\d.]\<close>.
\<close>

definition matchAt :: "jsstring \<Rightarrow> jsstring \<Rightarrow> jsstring option" where
  "matchAt marker s =
     (if take (length marker) s = marker then
        (let cap = takeWhile isNumChar (dropWhile isSpace (drop (length marker) s))
         in if cap = [] then None else Some cap)
      else None)"

fun matchMarker :: "jsstring \<Rightarrow> jsstring \<Rightarrow> jsstring option" where
  "matchMarker marker [] = matchAt marker []"
| "matchMarker marker (c # cs) =
     (case matchAt marker (c # cs) of Some cap \<Rightarrow> Some cap | None \<Rightarrow> matchMarker marker cs)"

text \<open>
  The loop of \<^verbatim>\<open>detectSilences\<close> over the lines of the log, with its two variables.
  \<^verbatim>\<open>parseFloat\<close>, the runtime's reader of numerals, is a parameter.
\<close>

fun scanLines :: "(jsstring \<Rightarrow> real) \<Rightarrow> jsstring list \<Rightarrow> real option \<Rightarrow> Silence list \<Rightarrow> Silence list" where
  "scanLines parseFloat [] currentStart silences = silences"
| "scanLines parseFloat (line # rest) currentStart silences =
     (case matchMarker (str ''silence_start:'') line of
        Some startCap \<Rightarrow> scanLines parseFloat rest (Some (parseFloat startCap)) silences
      | None \<Rightarrow>
          (case (matchMarker (str ''silence_end:'') line, currentStart) of
             (Some endCap, Some s) \<Rightarrow>
               scanLines parseFloat rest None
                 (silences @ [\<lparr>sil_start = s, sil_end = parseFloat endCap\<rparr>])
           | _ \<Rightarrow> scanLines parseFloat rest currentStart silences))"

text \<open>\<^verbatim>\<open>detectSilences\<close>, from the text the detector wrote to its error stream.\<close>

definition detectSilences :: "(jsstring \<Rightarrow> real) \<Rightarrow> jsstring \<Rightarrow> Silence list" where
  "detectSilences parseFloat text = scanLines parseFloat (splitOn (ch CHR 0x0A) [] text) None []"

text \<open>
  A reader of decimal numerals, \<^verbatim>\<open>parseFloat\<close> on the captures \<^verbatim>\<open>digits\<close>,
  \<^verbatim>\<open>digits.digits\<close> and \<^verbatim>\<open>.digits\<close>: the value of the longest such prefix. (Where there
  is none, \<^verbatim>\<open>parseFloat\<close> is NaN, which has no real value; this reader gives zero there.)
\<close>

definition digitVal :: "jschar \<Rightarrow> nat" where
  "digitVal c = length (takeWhile (\<lambda>d. d \<noteq> c) (str ''0123456789''))"

definition readNat :: "jsstring \<Rightarrow> nat" where
  "readNat ds = foldl (\<lambda>n c. 10 * n + digitVal c) 0 ds"

definition readDecimal :: "jsstring \<Rightarrow> real" where
  "readDecimal s =
     (let ip = takeWhile isDigit s; r = dropWhile isDigit s;
          fp = (case r of [] \<Rightarrow> [] | c # cs \<Rightarrow> if c = (ch CHR ''.'') then takeWhile isDigit cs else [])
      in real (readNat ip) + real (readNat fp) / 10 ^ length fp)"

subsection \<open>Split planning\<close>

text \<open>
  The inner loop of \<^verbatim>\<open>findSplitPoints\<close> over the silences, for one window size, on the
  pair of \<^verbatim>\<open>bestSilence\<close> (\<open>None\<close> is \<^verbatim>\<open>null\<close>) and \<^verbatim>\<open>bestDistance\<close> (\<open>None\<close> is
  \<^verbatim>\<open>Infinity\<close>).
\<close>

fun scanSilences ::
  "Silence list \<Rightarrow> real \<Rightarrow> real \<Rightarrow> Silence option \<times> real option \<Rightarrow> Silence option \<times> real option" where
  "scanSilences [] target window best = best"
| "scanSilences (s # ss) target window (bestSilence, bestDistance) =
     (if sil_start s \<ge> target - window \<and> sil_start s \<le> target + window then
        (let distance = \<bar>sil_start s - target\<bar> in
         if (case bestDistance of None \<Rightarrow> True | Some b \<Rightarrow> distance < b)
         then scanSilences ss target window (Some s, Some distance)
         else scanSilences ss target window (bestSilence, bestDistance))
      else scanSilences ss target window (bestSilence, bestDistance))"

text \<open>
  \<^verbatim>\<open>for (let window = 30; window <= 180 && !bestSilence; window += 30)\<close>, entered with
  the current window.
\<close>

function windowLoop ::
  "Silence list \<Rightarrow> real \<Rightarrow> nat \<Rightarrow> Silence option \<times> real option \<Rightarrow> Silence option \<times> real option" where
  "windowLoop silences target window (bestSilence, bestDistance) =
     (if window \<le> 180 \<and> bestSilence = None
      then windowLoop silences target (window + 30)
             (scanSilences silences target (real window) (bestSilence, bestDistance))
      else (bestSilence, bestDistance))"
  by pat_completeness auto
termination
  by (relation "measure (\<lambda>(silences, target, window, best). 181 - window)") auto

declare windowLoop.simps [simp del]

text \<open>
  The body of the outer loop for one checkpoint: the offset it pushes,
  \<^verbatim>\<open>bestSilence ? bestSilence.start : target\<close>.
\<close>

definition chooseSplit :: "Silence list \<Rightarrow> real \<Rightarrow> real" where
  "chooseSplit silences target =
     (case fst (windowLoop silences target 30 (None, None)) of
        Some bestSilence \<Rightarrow> sil_start bestSilence
      | None \<Rightarrow> target)"

text \<open>
  \<^verbatim>\<open>for (let target = chunkSec; target < totalDuration; target += chunkSec)\<close>. With a
  \<open>chunkSec\<close> that is not positive the loop may never end: it is a partial function, and
  not returning is the value \<open>None\<close>.
\<close>

partial_function (option) splitLoop ::
  "Silence list \<Rightarrow> real \<Rightarrow> real \<Rightarrow> real \<Rightarrow> real list \<Rightarrow> real list option" where
  "splitLoop silences totalDuration chunkSec target splits =
     (if target < totalDuration
      then splitLoop silences totalDuration chunkSec (target + chunkSec)
             (splits @ [chooseSplit silences target])
      else Some splits)"

declare splitLoop.simps [code]

definition findSplitPoints :: "Silence list \<Rightarrow> real \<Rightarrow> real \<Rightarrow> real list option" where
  "findSplitPoints silences totalDuration chunkSec =
     splitLoop silences totalDuration chunkSec chunkSec [0]"

subsection \<open>Chunk extraction\<close>

definition chunkPath :: "nat \<Rightarrow> jsstring" where
  "chunkPath i = (str ''/tmp/transcribe_chunk_'') @ showNat i @ (str ''.wav'')"

text \<open>\<^verbatim>\<open>splitPoints[i + 1] ?? totalDuration\<close>: past the last index the read is undefined.\<close>

definition chunkEnd :: "real list \<Rightarrow> real \<Rightarrow> nat \<Rightarrow> real" where
  "chunkEnd splitPoints totalDuration i =
     (if i + 1 < length splitPoints then splitPoints ! (i + 1) else totalDuration)"

text \<open>
  \<^verbatim>\<open>splitAudio\<close>: for each index of \<open>splitPoints\<close> one extraction call and one chunk.
  The result is the list of calls made, in order, and the chunks returned.
\<close>

definition splitAudio :: "jsstring \<Rightarrow> real list \<Rightarrow> real \<Rightarrow> ExtractCall list \<times> ChunkInfo list" where
  "splitAudio filePath splitPoints totalDuration =
     (let step = (\<lambda>i.
            let start = splitPoints ! i;
                end' = chunkEnd splitPoints totalDuration i;
                chunkPath = chunkPath i
            in (\<lparr>ex_input = filePath, ex_ss = start, ex_to = end', ex_output = chunkPath\<rparr>,
                \<lparr>path = chunkPath, startOffset = start, duration = end' - start\<rparr>));
          steps = map step [0..<length splitPoints]
      in (map fst steps, map snd steps))"

subsection \<open>Normalising a transcription result\<close>

definition toMMSS :: "real \<Rightarrow> jsstring" where
  "toMMSS seconds =
     (let mins = \<lfloor>seconds / 60\<rfloor>; secs = jsRem seconds 60
      in padStart 2 (ch CHR ''0'') (showInt mins) @ (str '':'') @ padStart 6 (ch CHR ''0'') (toFixed 3 secs))"

text \<open>The object literal that both branches of \<^verbatim>\<open>extractWords\<close> push.\<close>

definition makeWord :: "jsstring \<Rightarrow> real \<Rightarrow> real \<Rightarrow> jsstring \<Rightarrow> TranscriptionWord" where
  "makeWord w startSec endSec label =
     \<lparr>word = w,
      startOffsetStr = toFixed 3 startSec @ (str ''s''),
      endOffsetStr = toFixed 3 endSec @ (str ''s''),
      startTime = toMMSS startSec,
      endTime = toMMSS endSec,
      speakerLabel = label\<rparr>"

text \<open>The body of the loop over \<^verbatim>\<open>result.segments\<close>: the words of one segment.\<close>

definition segmentToWords :: "DiarizedSegment \<Rightarrow> real \<Rightarrow> TranscriptionWord list" where
  "segmentToWords segment offsetSec =
     (let segmentWords = splitWs [] (trim (seg_text segment)) in
      case segmentWords of
        [] \<Rightarrow> []
      | first # others \<Rightarrow>
          if first = [] then []
          else
            (let duration = seg_end segment - seg_start segment;
                 wordDuration = duration / real (length segmentWords)
             in map (\<lambda>i.
                   (let wordStart = seg_start segment + real i * wordDuration + offsetSec;
                        wordEnd = seg_start segment + real (i + 1) * wordDuration + offsetSec
                    in makeWord (segmentWords ! i) wordStart wordEnd
                         (replaceFirst (str ''speaker_'') [] (speaker segment))))
                 [0..<length segmentWords]))"

definition extractWords :: "VerboseResponse \<Rightarrow> real \<Rightarrow> TranscriptionWord list" where
  "extractWords result offsetSec =
     (case resp_words result of
        Some ws \<Rightarrow>
          map (\<lambda>w. makeWord (tw_word w) (tw_start w + offsetSec) (tw_end w + offsetSec) (str ''0'')) ws
      | None \<Rightarrow>
          (case resp_segments result of
             Some segs \<Rightarrow> concat (map (\<lambda>segment. segmentToWords segment offsetSec) segs)
           | None \<Rightarrow> []))"

subsection \<open>Dispatch and merge\<close>

text \<open>
  The transcription service is a parameter: \<open>transcribeFile\<close> takes the path of an audio
  file and gives the response, or \<open>Inl\<close> the message of the error it throws.

  One callback of \<^verbatim>\<open>chunks.map(async (chunk, i) => ...)\<close>: its \<^verbatim>\<open>try\<close> and \<^verbatim>\<open>catch\<close>
  both return, so the promise it makes is never rejected (\<open>Inl\<close>).
\<close>

definition transcribeChunk ::
  "(jsstring \<Rightarrow> jsstring + VerboseResponse) \<Rightarrow> nat \<Rightarrow> ChunkInfo \<Rightarrow> jsstring + ChunkResult" where
  "transcribeChunk transcribeFile i c =
     (case transcribeFile (path c) of
        Inr result \<Rightarrow> Inr \<lparr>index = i, words = extractWords result (startOffset c), chunk = c\<rparr>
      | Inl err \<Rightarrow> Inr \<lparr>index = i, words = [], chunk = c\<rparr>)"

text \<open>
  \<^verbatim>\<open>Promise.all\<close>: rejected when one of the promises is, and otherwise fulfilled with
  their values in the order of the promises, whatever the order they settle in.
\<close>

fun promiseAll :: "(jsstring + 'a) list \<Rightarrow> jsstring + 'a list" where
  "promiseAll [] = Inr []"
| "promiseAll (Inl err # ps) = Inl err"
| "promiseAll (Inr v # ps) = (case promiseAll ps of Inl err \<Rightarrow> Inl err | Inr vs \<Rightarrow> Inr (v # vs))"

definition dispatch ::
  "(jsstring \<Rightarrow> jsstring + VerboseResponse) \<Rightarrow> ChunkInfo list \<Rightarrow> jsstring + ChunkResult list" where
  "dispatch transcribeFile chunks =
     promiseAll (map (\<lambda>(i, c). transcribeChunk transcribeFile i c) (enumerate 0 chunks))"

text \<open>
  \<^verbatim>\<open>results.sort((a, b) => a.index - b.index)\<close>, a stable sort, and the loop that appends
  each result's words to \<^verbatim>\<open>allWords\<close>.
\<close>

definition mergeWords :: "ChunkResult list \<Rightarrow> TranscriptionWord list" where
  "mergeWords results = concat (map words (sort_key index results))"

text \<open>The chunked branch of \<^verbatim>\<open>main\<close> from the chunks on: dispatch, then merge.\<close>

definition transcribeChunks ::
  "(jsstring \<Rightarrow> jsstring + VerboseResponse) \<Rightarrow> ChunkInfo list \<Rightarrow> jsstring + TranscriptionWord list" where
  "transcribeChunks transcribeFile chunks =
     (case dispatch transcribeFile chunks of
        Inl err \<Rightarrow> Inl err
      | Inr results \<Rightarrow> Inr (mergeWords results))"

subsection \<open>Notions of the specification, for comparison with the code\<close>

text \<open>
  ``The text is split on whitespace into tokens'': the tokens of a text are its maximal
  runs of characters that are not whitespace, in order.
\<close>

function wsTokens :: "jsstring \<Rightarrow> jsstring list" where
  "wsTokens s =
     (case dropWhile isSpace s of
        [] \<Rightarrow> []
      | c # cs \<Rightarrow>
          (c # takeWhile (\<lambda>x. \<not> isSpace x) cs) # wsTokens (dropWhile (\<lambda>x. \<not> isSpace x) cs))"
  by pat_completeness auto
termination
proof (relation "measure length", goal_cases)
  case 1
  show ?case by simp
next
  case (2 s c cs)
  have "length (dropWhile (\<lambda>x. \<not> isSpace x) cs) \<le> length cs"
    by (rule length_dropWhile_le)
  moreover have "length (c # cs) \<le> length s"
    using length_dropWhile_le [of isSpace s] 2 by simp
  ultimately show ?case by simp
qed

declare wsTokens.simps [simp del]

text \<open>
  The words of one segment with their times relative to the audio that was sent: token
  \<open>i\<close> of \<open>k\<close> has the \<open>i\<close>-th of \<open>k\<close> equal slices of the segment. Each entry is the
  word, its start, its end and its speaker label.
\<close>

definition segmentSlices :: "DiarizedSegment \<Rightarrow> (jsstring \<times> real \<times> real \<times> jsstring) list" where
  "segmentSlices segment =
     (let tokens = wsTokens (seg_text segment);
          k = length tokens;
          slice = (seg_end segment - seg_start segment) / real k
      in map (\<lambda>i. (tokens ! i,
                    seg_start segment + real i * slice,
                    seg_start segment + real (i + 1) * slice,
                    replaceFirst (str ''speaker_'') [] (speaker segment)))
           [0..<k])"

text \<open>The words of a transcription result with their chunk-relative times.\<close>

definition relativeWords :: "VerboseResponse \<Rightarrow> (jsstring \<times> real \<times> real \<times> jsstring) list" where
  "relativeWords result =
     (case resp_words result of
        Some ws \<Rightarrow> map (\<lambda>w. (tw_word w, tw_start w, tw_end w, (str ''0''))) ws
      | None \<Rightarrow>
          (case resp_segments result of
             Some segs \<Rightarrow> concat (map segmentSlices segs)
           | None \<Rightarrow> []))"

text \<open>
  ``The string with the prefix removed'': a string that starts with \<open>pre\<close> loses it, and
  any other string is left as it is.
\<close>

definition removePrefix :: "jsstring \<Rightarrow> jsstring \<Rightarrow> jsstring" where
  "removePrefix pre s = (if take (length pre) s = pre then drop (length pre) s else s)"

text \<open>
  The word list of one chunk: the normalised words of the response to the chunk, at the
  chunk's start offset, and no word when the transcription call fails.
\<close>

definition chunkWords :: "(jsstring \<Rightarrow> jsstring + VerboseResponse) \<Rightarrow> ChunkInfo \<Rightarrow> TranscriptionWord list" where
  "chunkWords transcribeFile c =
     (case transcribeFile (path c) of
        Inl err \<Rightarrow> []
      | Inr result \<Rightarrow> extractWords result (startOffset c))"

text \<open>The outcome of every chunk, in the order the chunks were submitted in.\<close>

definition chunkResults:: "(jsstring \<Rightarrow> jsstring + VerboseResponse) \<Rightarrow> ChunkInfo list \<Rightarrow> ChunkResult list" where
  "chunkResults transcribeFile chunks =
     map (\<lambda>(i, c). \<lparr>index = i, words = chunkWords transcribeFile c, chunk = c\<rparr>) (enumerate 0 chunks)"

text \<open>The silences whose start lies within \<open>w\<close> seconds of a checkpoint, in list order.\<close>

definition inWindow :: "Silence list \<Rightarrow> real \<Rightarrow> real \<Rightarrow> Silence list" where
  "inWindow silences target w = filter (\<lambda>s. \<bar>sil_start s - target\<bar> \<le> w) silences"

text \<open>
  The checkpoints of the plan: the multiples \<open>chunkSec\<close>, \<open>2 * chunkSec\<close>, ... that are below
  \<open>totalDuration\<close>.
\<close>

definition checkpoints :: "real \<Rightarrow> real \<Rightarrow> real list" where
  "checkpoints totalDuration chunkSec =
     map (\<lambda>k. real k * chunkSec) [1..<nat \<lceil>totalDuration / chunkSec\<rceil>]"

text \<open>
  ``Marker lines \<^verbatim>\<open>silence_start: <float>\<close> / \<^verbatim>\<open>silence_end: <float>\<close>'': a line of the log
  is a marker line of a kind when the keyword of that kind stands somewhere on it.
\<close>

fun containsMarker :: "jsstring \<Rightarrow> jsstring \<Rightarrow> bool" where
  "containsMarker marker [] = (marker = [])"
| "containsMarker marker (c # cs) =
     (take (length marker) (c # cs) = marker \<or> containsMarker marker cs)"

subsection \<open>Notions of the proofs\<close>

text \<open>
  What the loop of \<^verbatim>\<open>detectSilences\<close> reads on a line, by its two patterns: a line that
  matches the start pattern is a start marker to it (whatever else is on the line), a
  line that matches only the end pattern is an end marker, and any other line is passed
  over. A line whose number the patterns cannot read, such as a signed one, is no marker
  to the loop.
\<close>

datatype Marker = SilenceStart real | SilenceEnd real | NoMarker

definition lineMarker :: "(jsstring \<Rightarrow> real) \<Rightarrow> jsstring \<Rightarrow> Marker" where
  "lineMarker parseFloat line =
     (case matchMarker (str ''silence_start:'') line of
        Some cap \<Rightarrow> SilenceStart (parseFloat cap)
      | None \<Rightarrow>
          (case matchMarker (str ''silence_end:'') line of
             Some cap \<Rightarrow> SilenceEnd (parseFloat cap)
           | None \<Rightarrow> NoMarker))"

definition markers :: "(jsstring \<Rightarrow> real) \<Rightarrow> jsstring list \<Rightarrow> Marker list" where
  "markers parseFloat lines = filter (\<lambda>m. m \<noteq> NoMarker) (map (lineMarker parseFloat) lines)"

text \<open>
  What the loop does with the markers it reads: an end marker that comes right after a
  start marker closes an interval with it, and a marker without its partner gives nothing.
\<close>

fun pairUp :: "Marker list \<Rightarrow> Silence list" where
  "pairUp (SilenceStart s # SilenceEnd e # rest) = \<lparr>sil_start = s, sil_end = e\<rparr> # pairUp rest"
| "pairUp (m # rest) = pairUp rest"
| "pairUp [] = []"

text \<open>
  The invariant of the scan over the silences: the pair holds nothing while no silence seen
  so far starts in the window, and else a silence of the window that is nearest to the
  target, with its distance.
\<close>

definition bestAmong :: "Silence list \<Rightarrow> real \<Rightarrow> real \<Rightarrow> Silence option \<times> real option \<Rightarrow> bool" where
  "bestAmong seen target w b =
     (case fst b of
        None \<Rightarrow> snd b = None \<and> inWindow seen target w = []
      | Some s \<Rightarrow>
          snd b = Some \<bar>sil_start s - target\<bar> \<and> s \<in> set (inWindow seen target w) \<and>
          (\<forall>s' \<in> set (inWindow seen target w).
             \<bar>sil_start s - target\<bar> \<le> \<bar>sil_start s' - target\<bar>))"

text \<open>The window sizes that the loop tries when it is entered with the window \<open>w\<close>.\<close>

function windowsFrom :: "nat \<Rightarrow> nat list" where
  "windowsFrom w = (if w \<le> 180 then w # windowsFrom (w + 30) else [])"
  by pat_completeness auto
termination
  by (relation "measure (\<lambda>w. 181 - w)") auto

declare windowsFrom.simps [simp del]

section \<open>Evaluation on numerals\<close>

lemma showNat_numeral [simp]:
  "showNat (numeral k) =
     (if (numeral k :: nat) < 10 then [showDigit (numeral k)]
      else showNat (numeral k div 10) @ [showDigit (numeral k)])"
  by (rule showNat.simps)

lemma showNat_0 [simp]: "showNat 0 = str ''0''"
  by (simp add: showNat.simps showDigit_def)

lemma showNat_1 [simp]: "showNat 1 = str ''1''" "showNat (Suc 0) = str ''1''"
  by (simp_all add: showNat.simps showDigit_def)

lemma replicate_numeral [simp]: "replicate (numeral k) x = x # replicate (pred_numeral k) x"
  by (simp add: numeral_eq_Suc)

lemmas format_defs =
  toFixed_def toMMSS_def jsRem_def showInt_def padStart_def showDigit_def Let_def

section \<open>Chunk extraction: one chunk per offset\<close>

lemma zip_tl_snoc_nth:
  "i < length xs \<Longrightarrow>
   zip xs (tl xs @ [t]) ! i = (xs ! i, if i + 1 < length xs then xs ! (i + 1) else t)"
  by (cases xs) (auto simp: nth_append nth_tl less_Suc_eq)

text \<open>
  Claim C4, as the code has it: \<^verbatim>\<open>splitAudio\<close> returns one chunk for each offset of the plan,
  so a plan of \<open>n + 1\<close> offsets gives \<open>n + 1\<close> chunks (the last one runs to the end of the
  audio), not \<open>n\<close>.
\<close>

theorem splitAudio_count:
  "length (snd (splitAudio filePath splitPoints totalDuration)) = length splitPoints"
  by (simp add: splitAudio_def Let_def)

text \<open>
  Claim C4 as it is stated fails: the plan \<open>[0, 100, 250]\<close> has three offsets, and the
  extractor gives three chunks, not two.
\<close>

theorem splitAudio_count_counterexample:
  "length (snd (splitAudio (str ''audio.wav'') [0, 100, 250] 300)) \<noteq> length [0, 100, 250 :: real] - 1"
  by (simp add: splitAudio_def Let_def)

text \<open>
  Claim C7: for the offsets \<open>[o0, o1, ..., on]\<close> the extraction calls cut, in order, the
  ranges from \<open>o0\<close> to \<open>o1\<close>, from \<open>o1\<close> to \<open>o2\<close>, ..., and from \<open>on\<close> to \<open>totalDuration\<close>, and
  the chunk returned for each call starts at the range's start and has the range's length:
  every split point is where the next chunk starts, and the last chunk ends at
  \<open>totalDuration\<close>.
\<close>

theorem splitAudio_covers:
  "map (\<lambda>call. (ex_ss call, ex_to call)) (fst (splitAudio filePath splitPoints totalDuration))
     = zip splitPoints (tl splitPoints @ [totalDuration]) \<and>
   map (\<lambda>c. (startOffset c, startOffset c + duration c))
     (snd (splitAudio filePath splitPoints totalDuration))
     = zip splitPoints (tl splitPoints @ [totalDuration])"
proof -
  let ?r = "splitAudio filePath splitPoints totalDuration"
  let ?z = "zip splitPoints (tl splitPoints @ [totalDuration])"
  have "map (\<lambda>call. (ex_ss call, ex_to call)) (fst ?r) = ?z"
    by (rule nth_equalityI)
      (simp_all add: splitAudio_def Let_def chunkEnd_def zip_tl_snoc_nth del: nth_zip)
  moreover have "map (\<lambda>c. (startOffset c, startOffset c + duration c)) (snd ?r) = ?z"
    by (rule nth_equalityI)
      (simp_all add: splitAudio_def Let_def chunkEnd_def zip_tl_snoc_nth del: nth_zip)
  ultimately show ?thesis by simp
qed

text \<open>The offsets \<open>[0, 100, 250]\<close> of an audio of 300 seconds: three chunks, end to start.\<close>

theorem splitAudio_covers_witness:
  "map (\<lambda>c. (startOffset c, startOffset c + duration c))
     (snd (splitAudio (str ''audio.wav'') [0, 100, 250] 300)) = [(0, 100), (100, 250), (250, 300)]"
  using splitAudio_covers [of "(str ''audio.wav'')" "[0, 100, 250]" 300] by simp

section \<open>Splitting a segment's text\<close>

text \<open>
  The code's \<^verbatim>\<open>text.trim().split(/\s+/)\<close> gives the tokens of the text, but for a text
  without tokens, where it gives the one empty piece that the code then skips.
\<close>

lemma splitWs_run:
  "splitWs cur s =
     (cur @ takeWhile (\<lambda>x. \<not> isSpace x) s) #
     (case dropWhile (\<lambda>x. \<not> isSpace x) s of
        [] \<Rightarrow> []
      | r # rs \<Rightarrow> splitWs [] (dropWhile isSpace rs))"
  by (induction s arbitrary: cur) auto

lemma wsTokens_Nil [simp]: "wsTokens [] = []"
  by (simp add: wsTokens.simps)

lemma wsTokens_dropWhile: "wsTokens (dropWhile isSpace s) = wsTokens s"
  by (subst wsTokens.simps, subst (2) wsTokens.simps) simp

lemma wsTokens_eq_Nil: "wsTokens s = [] \<longleftrightarrow> (\<forall>c \<in> set s. isSpace c)"
proof (cases "dropWhile isSpace s")
  case Nil
  have "wsTokens s = []" by (subst wsTokens.simps) (simp only: Nil list.case)
  moreover have "\<forall>c \<in> set s. isSpace c" using Nil by (simp add: dropWhile_eq_Nil_conv)
  ultimately show ?thesis by simp
next
  case (Cons c cs)
  have "wsTokens s \<noteq> []" by (subst wsTokens.simps) (simp only: Cons list.case, simp)
  moreover have "\<not> (\<forall>c \<in> set s. isSpace c)"
    using dropWhile_eq_Nil_conv [of isSpace s] Cons by simp
  ultimately show ?thesis by simp
qed

lemma wsTokens_all_space: "\<forall>c \<in> set s. isSpace c \<Longrightarrow> wsTokens s = []"
  by (simp add: wsTokens_eq_Nil)

lemma wsTokens_nonspace_Cons:
  "\<not> isSpace c \<Longrightarrow>
   wsTokens (c # cs) =
     (c # takeWhile (\<lambda>x. \<not> isSpace x) cs) # wsTokens (dropWhile (\<lambda>x. \<not> isSpace x) cs)"
  by (subst wsTokens.simps) simp

lemma last_dropWhile: "dropWhile P xs \<noteq> [] \<Longrightarrow> last (dropWhile P xs) = last xs"
proof -
  assume ne: "dropWhile P xs \<noteq> []"
  have "last (takeWhile P xs @ dropWhile P xs) = last (dropWhile P xs)"
    using ne by (rule last_appendR)
  then show ?thesis by simp
qed

lemma splitWs_trimmed:
  "t \<noteq> [] \<Longrightarrow> \<not> isSpace (hd t) \<Longrightarrow> \<not> isSpace (last t) \<Longrightarrow> splitWs [] t = wsTokens t"
proof (induction "length t" arbitrary: t rule: less_induct)
  case less
  from less.prems obtain c cs where t: "t = c # cs" and c: "\<not> isSpace c"
    by (cases t) auto
  let ?d = "dropWhile (\<lambda>x. \<not> isSpace x) cs"
  have run: "splitWs [] t = (c # takeWhile (\<lambda>x. \<not> isSpace x) cs) #
     (case ?d of [] \<Rightarrow> [] | r # rs \<Rightarrow> splitWs [] (dropWhile isSpace rs))"
    using splitWs_run [of "[]" t] c by (simp add: t del: splitWs.simps)
  have wt: "wsTokens t = (c # takeWhile (\<lambda>x. \<not> isSpace x) cs) # wsTokens ?d"
    unfolding t by (rule wsTokens_nonspace_Cons [OF c])
  show ?case
  proof (cases ?d)
    case Nil
    show ?thesis unfolding run wt Nil by simp
  next
    case (Cons r rs)
    let ?u = "dropWhile isSpace rs"
    have dne: "?d \<noteq> []" using Cons by simp
    have r: "isSpace r" using hd_dropWhile [OF dne] Cons by simp
    have "last ?d = last cs" using dne by (rule last_dropWhile)
    moreover have "cs \<noteq> []" using dne by auto
    ultimately have dlast: "\<not> isSpace (last ?d)" using less.prems(3) by (simp add: t)
    have une: "?u \<noteq> []"
    proof
      assume "?u = []"
      then have "\<forall>x \<in> set rs. isSpace x" by (simp add: dropWhile_eq_Nil_conv)
      with r have "\<forall>x \<in> set (r # rs). isSpace x" by simp
      moreover have "last (r # rs) \<in> set (r # rs)" by (rule last_in_set) simp
      ultimately have "isSpace (last (r # rs))" by blast
      then show False using dlast unfolding Cons by simp
    qed
    have "rs \<noteq> []" using une by auto
    then have "last (r # rs) = last rs" by simp
    moreover have "last ?u = last rs" using une by (rule last_dropWhile)
    ultimately have lastu: "\<not> isSpace (last ?u)" using dlast unfolding Cons by simp
    have hdu: "\<not> isSpace (hd ?u)" using hd_dropWhile [OF une] .
    have "length ?u \<le> length rs" by (rule length_dropWhile_le)
    moreover have "length ?d \<le> length cs" by (rule length_dropWhile_le)
    ultimately have len: "length ?u < length t" unfolding Cons t by simp
    have IH: "splitWs [] ?u = wsTokens ?u"
      using less.hyps [OF len une hdu lastu] .
    have "wsTokens (r # rs) = wsTokens (dropWhile isSpace (r # rs))"
      by (rule wsTokens_dropWhile [symmetric])
    then have "wsTokens (r # rs) = wsTokens ?u" using r by simp
    then show ?thesis unfolding run wt Cons using IH by simp
  qed
qed

lemma wsTokens_append_space:
  "\<forall>c \<in> set w. isSpace c \<Longrightarrow> wsTokens (t @ w) = wsTokens t"
proof (induction "length t" arbitrary: t rule: less_induct)
  case less
  have w: "wsTokens w = []" using less.prems by (rule wsTokens_all_space)
  show ?case
  proof (cases "\<forall>c \<in> set t. isSpace c")
    case True
    then have "\<forall>c \<in> set (t @ w). isSpace c" using less.prems by auto
    then have "wsTokens (t @ w) = []" by (rule wsTokens_all_space)
    moreover have "wsTokens t = []" using True by (rule wsTokens_all_space)
    ultimately show ?thesis by simp
  next
    case False
    then have "dropWhile isSpace t \<noteq> []" by (simp add: dropWhile_eq_Nil_conv)
    then obtain c cs where d: "dropWhile isSpace t = c # cs"
      by (cases "dropWhile isSpace t") simp_all
    from False obtain y where y: "y \<in> set t" "\<not> isSpace y" by blast
    have dw: "dropWhile isSpace (t @ w) = c # (cs @ w)"
      using dropWhile_append1 [of y t isSpace w] y d by simp
    have "length (dropWhile isSpace t) \<le> length t" by (rule length_dropWhile_le)
    moreover have "length (dropWhile (\<lambda>x. \<not> isSpace x) cs) \<le> length cs"
      by (rule length_dropWhile_le)
    ultimately have len: "length (dropWhile (\<lambda>x. \<not> isSpace x) cs) < length t"
      unfolding d by simp
    have L: "wsTokens (t @ w) = (c # takeWhile (\<lambda>x. \<not> isSpace x) (cs @ w)) #
        wsTokens (dropWhile (\<lambda>x. \<not> isSpace x) (cs @ w))"
      by (subst wsTokens.simps) (simp only: dw list.case)
    have R: "wsTokens t = (c # takeWhile (\<lambda>x. \<not> isSpace x) cs) #
        wsTokens (dropWhile (\<lambda>x. \<not> isSpace x) cs)"
      by (subst wsTokens.simps) (simp only: d list.case)
    show ?thesis
    proof (cases "\<forall>x \<in> set cs. \<not> isSpace x")
      case True
      have tw: "takeWhile (\<lambda>x. \<not> isSpace x) w = []" "dropWhile (\<lambda>x. \<not> isSpace x) w = w"
        using less.prems by (cases w, simp_all)
      have a: "takeWhile (\<lambda>x. \<not> isSpace x) (cs @ w) = cs"
        using True tw by (simp add: takeWhile_append2)
      have b: "dropWhile (\<lambda>x. \<not> isSpace x) (cs @ w) = w"
        using True tw by (simp add: dropWhile_append2)
      have a': "takeWhile (\<lambda>x. \<not> isSpace x) cs = cs" using True by simp
      have b': "dropWhile (\<lambda>x. \<not> isSpace x) cs = []" using True by simp
      show ?thesis unfolding L R a b a' b' w by simp
    next
      case False
      then obtain z where z: "z \<in> set cs" "\<not> \<not> isSpace z" by blast
      have a: "takeWhile (\<lambda>x. \<not> isSpace x) (cs @ w) = takeWhile (\<lambda>x. \<not> isSpace x) cs"
        using z by (rule takeWhile_append1)
      have b: "dropWhile (\<lambda>x. \<not> isSpace x) (cs @ w) = dropWhile (\<lambda>x. \<not> isSpace x) cs @ w"
        using z by (rule dropWhile_append1)
      show ?thesis unfolding L R a b using less.hyps [OF len less.prems] by simp
    qed
  qed
qed

lemma trim_decomp:
  "dropWhile isSpace s = trim s @ rev (takeWhile isSpace (rev (dropWhile isSpace s)))"
proof -
  let ?u = "dropWhile isSpace s"
  have "rev (rev ?u) = rev (takeWhile isSpace (rev ?u) @ dropWhile isSpace (rev ?u))"
    by (simp only: takeWhile_dropWhile_id)
  then show ?thesis by (simp only: rev_append rev_rev_ident trim_def)
qed

lemma wsTokens_trim: "wsTokens (trim s) = wsTokens s"
proof -
  let ?w = "rev (takeWhile isSpace (rev (dropWhile isSpace s)))"
  have "\<forall>c \<in> set ?w. isSpace c" by (auto dest: set_takeWhileD)
  then have "wsTokens (trim s @ ?w) = wsTokens (trim s)" by (rule wsTokens_append_space)
  then have "wsTokens (dropWhile isSpace s) = wsTokens (trim s)"
    by (simp only: trim_decomp [symmetric])
  then show ?thesis by (simp only: wsTokens_dropWhile)
qed

lemma trim_eq_Nil: "trim s = [] \<longleftrightarrow> (\<forall>c \<in> set s. isSpace c)"
proof
  assume "trim s = []"
  then have "wsTokens (trim s) = []" by (simp only: wsTokens_Nil)
  then have "wsTokens s = []" by (simp only: wsTokens_trim)
  then show "\<forall>c \<in> set s. isSpace c" by (simp only: wsTokens_eq_Nil)
next
  assume "\<forall>c \<in> set s. isSpace c"
  then have d: "dropWhile isSpace s = []" by (simp add: dropWhile_eq_Nil_conv)
  show "trim s = []" unfolding trim_def d by simp
qed

lemma splitWs_trim:
  "splitWs [] (trim s) = (if wsTokens s = [] then [[]] else wsTokens s)"
proof (cases "trim s = []")
  case True
  have "wsTokens s = []" using True by (simp add: trim_eq_Nil wsTokens_eq_Nil)
  then show ?thesis unfolding True by simp
next
  case False
  have ne': "dropWhile isSpace (rev (dropWhile isSpace s)) \<noteq> []"
    using False unfolding trim_def by (simp only: rev_is_Nil_conv not_False_eq_True)
  have "\<not> isSpace (hd (dropWhile isSpace (rev (dropWhile isSpace s))))"
    using ne' by (rule hd_dropWhile)
  then have lastt: "\<not> isSpace (last (trim s))"
    unfolding trim_def last_rev .
  have ne: "dropWhile isSpace s \<noteq> []"
  proof
    assume d: "dropWhile isSpace s = []"
    have "trim s = []" unfolding trim_def d by simp
    then show False using False by simp
  qed
  have "hd (trim s @ rev (takeWhile isSpace (rev (dropWhile isSpace s)))) = hd (trim s)"
    using False by (rule hd_append2)
  then have "hd (dropWhile isSpace s) = hd (trim s)"
    by (simp only: trim_decomp [symmetric])
  moreover have "\<not> isSpace (hd (dropWhile isSpace s))"
    using ne by (rule hd_dropWhile)
  ultimately have hdt: "\<not> isSpace (hd (trim s))"
    by simp
  have "last (trim s) \<in> set (trim s)" using False by (rule last_in_set)
  then have "\<not> (\<forall>c \<in> set (trim s). isSpace c)" using lastt by (rule_tac notI) (drule (1) bspec, simp)
  then have "wsTokens (trim s) \<noteq> []" by (simp add: wsTokens_eq_Nil)
  then have "wsTokens s \<noteq> []" unfolding wsTokens_trim .
  moreover have "splitWs [] (trim s) = wsTokens s"
    using splitWs_trimmed [OF False hdt lastt] unfolding wsTokens_trim .
  ultimately show ?thesis by simp
qed

lemma wsTokens_tokens:
  "t \<in> set (wsTokens s) \<Longrightarrow> t \<noteq> [] \<and> (\<forall>c \<in> set t. \<not> isSpace c)"
proof (induction s rule: wsTokens.induct)
  case (1 s)
  show ?case
  proof (cases "dropWhile isSpace s")
    case Nil
    have "wsTokens s = []" by (subst wsTokens.simps) (simp only: Nil list.case)
    then show ?thesis using "1.prems" by simp
  next
    case (Cons c cs)
    have c: "\<not> isSpace c" using hd_dropWhile [of isSpace s] Cons by simp
    have "wsTokens s = (c # takeWhile (\<lambda>x. \<not> isSpace x) cs) #
        wsTokens (dropWhile (\<lambda>x. \<not> isSpace x) cs)"
      by (subst wsTokens.simps) (simp only: Cons list.case)
    then consider "t = c # takeWhile (\<lambda>x. \<not> isSpace x) cs"
      | "t \<in> set (wsTokens (dropWhile (\<lambda>x. \<not> isSpace x) cs))"
      using "1.prems" by auto
    then show ?thesis
    proof cases
      case 1
      then show ?thesis using c by (auto dest: set_takeWhileD)
    next
      case 2
      show ?thesis by (rule "1.IH" [OF Cons 2])
    qed
  qed
qed

lemma segmentToWords_slices:
  "segmentToWords segment offsetSec =
     map (\<lambda>(w, s, e, l). makeWord w (s + offsetSec) (e + offsetSec) l) (segmentSlices segment)"
proof (cases "wsTokens (seg_text segment)")
  case Nil
  then show ?thesis
    by (simp add: segmentToWords_def segmentSlices_def splitWs_trim)
next
  case (Cons t ts)
  have "t \<in> set (wsTokens (seg_text segment))" by (simp add: Cons)
  then have "t \<noteq> []" using wsTokens_tokens by blast
  then show ?thesis
    by (simp add: segmentToWords_def segmentSlices_def splitWs_trim Cons Let_def add.assoc add.commute)
qed

text \<open>
  Claim C8: normalisation splits the text of a diarized segment on whitespace (the
  whitespace of \<^verbatim>\<open>trim\<close> and \<^verbatim>\<open>\s\<close>, Unicode's included) into \<open>k\<close> tokens and gives
  exactly \<open>k\<close> words; token \<open>i\<close> has the time slice from \<open>start + i * slice\<close> to
  \<open>start + (i + 1) * slice\<close>, where \<open>slice = (end - start) / k\<close> (shifted by the offset of
  the chunk, and printed with three decimals). A segment gives no word exactly when its
  text is empty or all whitespace.
\<close>

theorem segment_subdivision:
  "segmentToWords segment offsetSec =
     (let tokens = wsTokens (seg_text segment);
          k = length tokens;
          slice = (seg_end segment - seg_start segment) / real k
      in map (\<lambda>i. makeWord (tokens ! i)
                    (seg_start segment + real i * slice + offsetSec)
                    (seg_start segment + real (i + 1) * slice + offsetSec)
                    (replaceFirst (str ''speaker_'') [] (speaker segment)))
           [0..<k]) \<and>
   (segmentToWords segment offsetSec = [] \<longleftrightarrow> (\<forall>c \<in> set (seg_text segment). isSpace c))"
  by (simp add: segmentToWords_slices segmentSlices_def Let_def wsTokens_eq_Nil)

lemma wsTokens_abc: "wsTokens (str ''a b c'') = [str ''a'', str ''b'', str ''c'']"
  by (simp add: wsTokens.simps isSpace_def)

theorem segment_subdivision_witness:
  "segmentToWords \<lparr>speaker = str ''speaker_1'', seg_text = str ''a b c'', seg_start = 0, seg_end = 3\<rparr> 0 =
     [\<lparr>word = str ''a'', startOffsetStr = str ''0.000s'', endOffsetStr = str ''1.000s'',
         startTime = str ''00:00.000'', endTime = str ''00:01.000'', speakerLabel = str ''1''\<rparr>,
      \<lparr>word = str ''b'', startOffsetStr = str ''1.000s'', endOffsetStr = str ''2.000s'',
         startTime = str ''00:01.000'', endTime = str ''00:02.000'', speakerLabel = str ''1''\<rparr>,
      \<lparr>word = str ''c'', startOffsetStr = str ''2.000s'', endOffsetStr = str ''3.000s'',
         startTime = str ''00:02.000'', endTime = str ''00:03.000'', speakerLabel = str ''1''\<rparr>] \<and>
   segmentToWords
     \<lparr>speaker = str ''speaker_1'', seg_text = [0x0020, 0x00A0, 0x3000], seg_start = 0, seg_end = 3\<rparr> 0
     = [] \<and>
   map word
     (segmentToWords
        \<lparr>speaker = str ''speaker_1'', seg_text = str ''a'' @ [0x00A0] @ str ''b'', seg_start = 0,
           seg_end = 2\<rparr> 0)
     = [str ''a'', str ''b'']"
proof -
  let ?seg = "\<lparr>speaker = str ''speaker_1'', seg_text = str ''a b c'', seg_start = 0, seg_end = 3\<rparr>"
  let ?blank = "\<lparr>speaker = str ''speaker_1'', seg_text = [0x0020, 0x00A0, 0x3000], seg_start = 0,
      seg_end = 3\<rparr>"
  let ?nbsp = "\<lparr>speaker = str ''speaker_1'', seg_text = str ''a'' @ [0x00A0] @ str ''b'', seg_start = 0,
      seg_end = 2\<rparr>"
  have up: "[0..<3] = [0, 1, 2]" by (simp add: upt_rec)
  have a: "segmentToWords ?seg 0 =
      [makeWord (str ''a'') 0 1 (str ''1''), makeWord (str ''b'') 1 2 (str ''1''), makeWord (str ''c'') 2 3 (str ''1'')]"
    unfolding segment_subdivision [of ?seg 0, THEN conjunct1]
    by (simp add: wsTokens_abc [simplified] Let_def up)
  have b: "segmentToWords ?blank 0 = []"
    unfolding segment_subdivision [of ?blank 0, THEN conjunct2]
    by (simp add: isSpace_def)
  have "wsTokens (str ''a'' @ [0x00A0] @ str ''b'') = [str ''a'', str ''b'']"
    by (simp add: wsTokens.simps isSpace_def)
  then have c: "map word (segmentToWords ?nbsp 0) = [str ''a'', str ''b'']"
    unfolding segment_subdivision [of ?nbsp 0, THEN conjunct1]
    by (simp add: Let_def makeWord_def comp_def upt_rec)
  show ?thesis unfolding a b c by (simp add: makeWord_def format_defs)
qed

section \<open>Offset correction\<close>

lemma extractWords_relative:
  "extractWords result offsetSec =
     map (\<lambda>(w, s, e, l). makeWord w (s + offsetSec) (e + offsetSec) l) (relativeWords result)"
  by (simp add: extractWords_def relativeWords_def segmentToWords_slices map_concat comp_def
      split: option.splits)

text \<open>
  Claim C2: the words \<^verbatim>\<open>extractWords\<close> gives for a result are the words of the result
  with the offset added to each chunk-relative start and end time (then printed with
  three decimals), and the callback of a chunk calls it with the chunk's \<open>startOffset\<close>:
  a merged word's times are the chunk-relative times plus the chunk's start offset.
\<close>

theorem extractWords_offset:
  "extractWords result offsetSec =
     map (\<lambda>(w, s, e, l). makeWord w (s + offsetSec) (e + offsetSec) l) (relativeWords result) \<and>
   transcribeChunk transcribeFile i c =
     Inr \<lparr>index = i,
          words = (case transcribeFile (path c) of
                     Inl err \<Rightarrow> []
                   | Inr result \<Rightarrow>
                       map (\<lambda>(w, s, e, l). makeWord w (s + startOffset c) (e + startOffset c) l)
                         (relativeWords result)),
          chunk = c\<rparr>"
  by (simp add: extractWords_relative transcribeChunk_def split: sum.splits)

text \<open>A chunk at offset 250 and a word from 2.0 to 2.5 seconds: 252.0 to 252.5 seconds.\<close>

theorem extractWords_offset_witness:
  "extractWords \<lparr>resp_text = str ''hi'', resp_words = Some [\<lparr>tw_word = str ''hi'', tw_start = 2, tw_end = 5 / 2\<rparr>],
      resp_segments = None\<rparr> 250 =
     [\<lparr>word = str ''hi'', startOffsetStr = str ''252.000s'', endOffsetStr = str ''252.500s'',
        startTime = str ''04:12.000'', endTime = str ''04:12.500'', speakerLabel = str ''0''\<rparr>]"
  unfolding extractWords_offset [THEN conjunct1]
  by (simp add: relativeWords_def makeWord_def format_defs)

section \<open>Speaker labels\<close>

lemma replaceFirst_leftmost:
  "pat \<noteq> [] \<Longrightarrow>
   \<forall>j < length pre. take (length pat) (drop j (pre @ pat @ post)) \<noteq> pat \<Longrightarrow>
   replaceFirst pat rep (pre @ pat @ post) = pre @ rep @ post"
proof (induction pre)
  case Nil
  then obtain c cs where cs: "pat @ post = c # cs" by (cases pat) auto
  have "take (length pat) (pat @ post) = pat" "drop (length pat) (pat @ post) = post"
    by simp_all
  then have "take (length pat) (c # cs) = pat" "drop (length pat) (c # cs) = post"
    unfolding cs by blast+
  then have "replaceFirst pat rep (c # cs) = rep @ post"
    by (simp only: replaceFirst.simps refl if_True)
  then show ?case unfolding cs [symmetric] by simp
next
  case (Cons p ps)
  have 0: "take (length pat) ((p # ps) @ pat @ post) \<noteq> pat"
    using Cons.prems(2) [rule_format, of 0] by simp
  have "\<forall>j < length ps. take (length pat) (drop j (ps @ pat @ post)) \<noteq> pat"
  proof (intro allI impI)
    fix j assume "j < length ps"
    then show "take (length pat) (drop j (ps @ pat @ post)) \<noteq> pat"
      using Cons.prems(2) [rule_format, of "Suc j"] by simp
  qed
  then have "replaceFirst pat rep (ps @ pat @ post) = ps @ rep @ post"
    using Cons.IH Cons.prems(1) by blast
  then show ?case using 0 by simp
qed

lemma replaceFirst_absent:
  "\<forall>j \<le> length s. take (length pat) (drop j s) \<noteq> pat \<Longrightarrow> replaceFirst pat rep s = s"
proof (induction s)
  case Nil
  then show ?case by auto
next
  case (Cons c cs)
  have 0: "take (length pat) (c # cs) \<noteq> pat"
    using Cons.prems [rule_format, of 0] by simp
  have "\<forall>j \<le> length cs. take (length pat) (drop j cs) \<noteq> pat"
  proof (intro allI impI)
    fix j assume "j \<le> length cs"
    then show "take (length pat) (drop j cs) \<noteq> pat"
      using Cons.prems [rule_format, of "Suc j"] by simp
  qed
  then have "replaceFirst pat rep cs = cs" by (rule Cons.IH)
  then show ?case using 0 by simp
qed

text \<open>
  Claim C10, as the code has it: every word of a diarized segment has the label
  \<^verbatim>\<open>segment.speaker.replace("speaker_", "")\<close>, the speaker string without the leftmost
  occurrence of \<^verbatim>\<open>speaker_\<close>, wherever it stands in the string (at the start in
  \<^verbatim>\<open>speaker_1\<close>, which becomes \<^verbatim>\<open>1\<close>); a speaker string without the substring is
  passed through as it is. In word-timestamp mode every word has the label \<^verbatim>\<open>0\<close>.
\<close>

theorem segment_speakerLabel:
  "map speakerLabel (segmentToWords segment offsetSec) =
     replicate (length (wsTokens (seg_text segment)))
       (replaceFirst (str ''speaker_'') [] (speaker segment)) \<and>
   (speaker segment = pre @ (str ''speaker_'') @ post \<and>
    (\<forall>j < length pre. take 8 (drop j (speaker segment)) \<noteq> (str ''speaker_'')) \<longrightarrow>
      replaceFirst (str ''speaker_'') [] (speaker segment) = pre @ post) \<and>
   ((\<forall>j \<le> length (speaker segment). take 8 (drop j (speaker segment)) \<noteq> (str ''speaker_'')) \<longrightarrow>
      replaceFirst (str ''speaker_'') [] (speaker segment) = speaker segment) \<and>
   (resp_words result = Some ws \<longrightarrow>
      map speakerLabel (extractWords result offsetSec) = replicate (length ws) (str ''0''))"
proof (intro conjI impI)
  show "map speakerLabel (segmentToWords segment offsetSec) =
     replicate (length (wsTokens (seg_text segment)))
       (replaceFirst (str ''speaker_'') [] (speaker segment))"
    by (simp add: segmentToWords_slices segmentSlices_def Let_def makeWord_def comp_def
        map_replicate_const)
next
  assume a: "speaker segment = pre @ (str ''speaker_'') @ post \<and>
    (\<forall>j < length pre. take 8 (drop j (speaker segment)) \<noteq> (str ''speaker_''))"
  define pat where "pat = str ''speaker_''"
  have len: "length pat = 8" "pat \<noteq> []" by (simp_all add: pat_def)
  have eq: "speaker segment = pre @ pat @ post"
    and no: "\<forall>j < length pre. take 8 (drop j (speaker segment)) \<noteq> pat"
    using a unfolding pat_def by blast+
  have "\<forall>j < length pre. take (length pat) (drop j (pre @ pat @ post)) \<noteq> pat"
    using no unfolding len eq .
  then have "replaceFirst pat [] (pre @ pat @ post) = pre @ [] @ post"
    using len(2) by (intro replaceFirst_leftmost)
  then show "replaceFirst (str ''speaker_'') [] (speaker segment) = pre @ post"
    unfolding eq pat_def by simp
next
  assume b: "\<forall>j \<le> length (speaker segment). take 8 (drop j (speaker segment)) \<noteq> (str ''speaker_'')"
  define pat where "pat = str ''speaker_''"
  have len: "length pat = 8" by (simp add: pat_def)
  have "\<forall>j \<le> length (speaker segment). take 8 (drop j (speaker segment)) \<noteq> pat"
    using b unfolding pat_def .
  then have "\<forall>j \<le> length (speaker segment). take (length pat) (drop j (speaker segment)) \<noteq> pat"
    unfolding len .
  then have "replaceFirst pat [] (speaker segment) = speaker segment"
    by (rule replaceFirst_absent)
  then show "replaceFirst (str ''speaker_'') [] (speaker segment) = speaker segment"
    unfolding pat_def .
next
  assume "resp_words result = Some ws"
  then show "map speakerLabel (extractWords result offsetSec) = replicate (length ws) (str ''0'')"
    by (simp add: extractWords_def makeWord_def comp_def map_replicate_const)
qed

theorem segment_speakerLabel_witness:
  "map speakerLabel
     (segmentToWords \<lparr>speaker = str ''speaker_1'', seg_text = str ''a b c'', seg_start = 0, seg_end = 3\<rparr> 0) =
     [str ''1'', str ''1'', str ''1''] \<and>
   map speakerLabel
     (segmentToWords \<lparr>speaker = str ''main_speaker_2'', seg_text = str ''a b c'', seg_start = 0, seg_end = 3\<rparr> 0) =
     [str ''main_2'', str ''main_2'', str ''main_2''] \<and>
   map speakerLabel
     (segmentToWords \<lparr>speaker = str ''A'', seg_text = str ''a b c'', seg_start = 0, seg_end = 3\<rparr> 0) =
     [str ''A'', str ''A'', str ''A''] \<and>
   map speakerLabel
     (extractWords \<lparr>resp_text = str ''hi'',
        resp_words = Some [\<lparr>tw_word = str ''hi'', tw_start = 2, tw_end = 5 / 2\<rparr>],
        resp_segments = None\<rparr> 250) = [str ''0'']"
proof -
  let ?s1 = "\<lparr>speaker = str ''speaker_1'', seg_text = str ''a b c'', seg_start = 0, seg_end = 3\<rparr>"
  let ?s2 = "\<lparr>speaker = str ''main_speaker_2'', seg_text = str ''a b c'', seg_start = 0, seg_end = 3\<rparr>"
  let ?s3 = "\<lparr>speaker = str ''A'', seg_text = str ''a b c'', seg_start = 0, seg_end = 3\<rparr>"
  let ?r = "\<lparr>resp_text = str ''hi'', resp_words = Some [\<lparr>tw_word = str ''hi'', tw_start = 2, tw_end = 5 / 2\<rparr>],
        resp_segments = None\<rparr>"
  have l1: "replaceFirst (str ''speaker_'') [] (speaker ?s1) = [] @ (str ''1'')"
    using segment_speakerLabel [of ?s1 0 "[]" "(str ''1'')", THEN conjunct2, THEN conjunct1] by simp
  have "\<forall>j < 5. take 8 (drop j (str ''main_speaker_2'')) \<noteq> (str ''speaker_'')"
    by (simp add: All_less_Suc numeral_eq_Suc)
  then have l2: "replaceFirst (str ''speaker_'') [] (speaker ?s2) = (str ''main_'') @ (str ''2'')"
    using segment_speakerLabel [of ?s2 0 "(str ''main_'')" "(str ''2'')", THEN conjunct2, THEN conjunct1] by simp
  have "\<forall>j \<le> 1. take 8 (drop j (str ''A'')) \<noteq> (str ''speaker_'')"
    by (simp add: le_Suc_eq)
  then have l3: "replaceFirst (str ''speaker_'') [] (speaker ?s3) = str ''A''"
    using segment_speakerLabel [of ?s3 0, THEN conjunct2, THEN conjunct2, THEN conjunct1] by simp
  have w: "map speakerLabel (extractWords ?r 250) = replicate (length [\<lparr>tw_word = str ''hi'', tw_start = 2, tw_end = 5 / 2\<rparr>]) (str ''0'')"
    using segment_speakerLabel [of _ _ _ _ ?r, THEN conjunct2, THEN conjunct2, THEN conjunct2] by simp
  show ?thesis
    unfolding segment_speakerLabel [of ?s1 0, THEN conjunct1]
      segment_speakerLabel [of ?s2 0, THEN conjunct1]
      segment_speakerLabel [of ?s3 0, THEN conjunct1] w l1 l2 l3
    by (simp add: wsTokens_abc [simplified])
qed

text \<open>
  Claim C10 as it is stated fails on both counts. With \<^verbatim>\<open>speaker_\<close> removed as a prefix, a
  speaker string that has the substring further in would be kept, as \<^verbatim>\<open>main_speaker_2\<close>
  does not start with it, and the code gives \<^verbatim>\<open>main_2\<close>. And a speaker string without the
  substring, such as \<^verbatim>\<open>A\<close>, is passed through as it is.
\<close>

theorem segment_speakerLabel_counterexample:
  "map speakerLabel
     (segmentToWords
        \<lparr>speaker = str ''main_speaker_2'', seg_text = str ''hello'', seg_start = 0, seg_end = 1\<rparr> 0)
     = [str ''main_2''] \<and>
   [str ''main_2''] \<noteq> [removePrefix (str ''speaker_'') (str ''main_speaker_2'')] \<and>
   map speakerLabel
     (segmentToWords \<lparr>speaker = str ''A'', seg_text = str ''hello'', seg_start = 0, seg_end = 1\<rparr> 0)
     = [str ''A'']"
  by (simp add: segmentToWords_def trim_def isSpace_def makeWord_def removePrefix_def)

section \<open>Dispatch and merge\<close>

lemma promiseAll_Inr: "promiseAll (map Inr xs) = Inr xs"
  by (induction xs) simp_all

lemma transcribeChunk_Inr:
  "transcribeChunk transcribeFile i c =
     Inr \<lparr>index = i, words = chunkWords transcribeFile c, chunk = c\<rparr>"
  by (simp add: transcribeChunk_def chunkWords_def split: sum.splits)

lemma dispatch_results: "dispatch transcribeFile chunks = Inr (chunkResults transcribeFile chunks)"
proof -
  have "map (\<lambda>(i, c). transcribeChunk transcribeFile i c) (enumerate 0 chunks) =
      map Inr (chunkResults transcribeFile chunks)"
    by (simp add: chunkResults_def transcribeChunk_Inr comp_def split_def)
  then show ?thesis by (simp only: dispatch_def promiseAll_Inr)
qed

lemma index_chunkResults: "map index (chunkResults transcribeFile chunks) = [0..<length chunks]"
proof -
  have "map index (chunkResults transcribeFile chunks) = map fst (enumerate 0 chunks)"
    by (simp add: chunkResults_def comp_def split_def)
  then show ?thesis by simp
qed

lemma words_chunkResults:
  "map words (chunkResults transcribeFile chunks) = map (chunkWords transcribeFile) chunks"
proof -
  have "map words (chunkResults transcribeFile chunks) =
      map (\<lambda>x. chunkWords transcribeFile (snd x)) (enumerate 0 chunks)"
    by (simp add: chunkResults_def comp_def split_def)
  also have "\<dots> = map (chunkWords transcribeFile) (map snd (enumerate 0 chunks))"
    by (simp only: map_map comp_def)
  also have "\<dots> = map (chunkWords transcribeFile) chunks"
    by simp
  finally show ?thesis .
qed

lemma nth_chunkResults:
  "k < length chunks \<Longrightarrow>
   chunkResults transcribeFile chunks ! k =
     \<lparr>index = k, words = chunkWords transcribeFile (chunks ! k), chunk = chunks ! k\<rparr>"
  by (simp add: chunkResults_def nth_enumerate_eq)

lemma sort_completed:
  assumes "mset completed = mset (chunkResults transcribeFile chunks)"
  shows "sort_key index completed = chunkResults transcribeFile chunks"
proof (rule sort_key_inj_key_eq [OF assms])
  have "distinct (map index (chunkResults transcribeFile chunks))"
    by (simp add: index_chunkResults)
  then have "inj_on index (set (chunkResults transcribeFile chunks))"
    by (simp add: distinct_map)
  moreover have "set completed = set (chunkResults transcribeFile chunks)"
    using assms by (rule mset_eq_setD)
  ultimately show "inj_on index (set completed)" by simp
next
  show "sorted (map index (chunkResults transcribeFile chunks))"
    by (simp add: index_chunkResults)
qed

lemma mergeWords_completed:
  assumes "mset completed = mset (chunkResults transcribeFile chunks)"
  shows "mergeWords completed = concat (map (chunkWords transcribeFile) chunks)"
  by (simp add: mergeWords_def sort_completed [OF assms] words_chunkResults)

text \<open>
  Claim C1: whatever the order the transcription calls complete in (\<open>completed\<close> is the
  list of the outcomes in any order), the merged word list is the concatenation of the
  chunks' word lists in ascending chunk index, and so is what the chunked branch returns;
  within a chunk the words are in the order of the transcription result (of its words, or
  of its segments and their tokens), as nothing sorts them.
\<close>

theorem merge_in_chunk_order:
  assumes "dispatch transcribeFile chunks = Inr results"
    and "mset completed = mset results"
  shows "mergeWords completed = concat (map (chunkWords transcribeFile) chunks) \<and>
    transcribeChunks transcribeFile chunks = Inr (concat (map (chunkWords transcribeFile) chunks)) \<and>
    map word (extractWords result offsetSec) = map fst (relativeWords result)"
proof -
  have r: "results = chunkResults transcribeFile chunks"
    using assms(1) by (simp add: dispatch_results)
  have 1: "mergeWords completed = concat (map (chunkWords transcribeFile) chunks)"
    using assms(2) unfolding r by (rule mergeWords_completed)
  have "mergeWords (chunkResults transcribeFile chunks) =
      concat (map (chunkWords transcribeFile) chunks)"
    by (rule mergeWords_completed) simp
  then have 2: "transcribeChunks transcribeFile chunks =
      Inr (concat (map (chunkWords transcribeFile) chunks))"
    by (simp add: transcribeChunks_def dispatch_results)
  have 3: "map word (extractWords result offsetSec) = map fst (relativeWords result)"
    by (simp add: extractWords_relative makeWord_def comp_def split_def)
  show ?thesis using 1 2 3 by simp
qed

text \<open>Three chunks, the last of which completes first.\<close>

theorem merge_in_chunk_order_witness:
  "mergeWords
     [\<lparr>index = 2, words = [makeWord (str ''hi'') 252 (505 / 2) (str ''0'')],
        chunk = \<lparr>path = str ''c2.wav'', startOffset = 250, duration = 50\<rparr>\<rparr>,
      \<lparr>index = 0, words = [makeWord (str ''hi'') 2 (5 / 2) (str ''0'')],
        chunk = \<lparr>path = str ''c0.wav'', startOffset = 0, duration = 100\<rparr>\<rparr>,
      \<lparr>index = 1, words = [makeWord (str ''hi'') 102 (205 / 2) (str ''0'')],
        chunk = \<lparr>path = str ''c1.wav'', startOffset = 100, duration = 150\<rparr>\<rparr>]
   = [makeWord (str ''hi'') 2 (5 / 2) (str ''0''), makeWord (str ''hi'') 102 (205 / 2) (str ''0''),
      makeWord (str ''hi'') 252 (505 / 2) (str ''0'')]"
proof -
  let ?c0 = "\<lparr>path = str ''c0.wav'', startOffset = 0, duration = 100\<rparr>"
  let ?c1 = "\<lparr>path = str ''c1.wav'', startOffset = 100, duration = 150\<rparr>"
  let ?c2 = "\<lparr>path = str ''c2.wav'', startOffset = 250, duration = 50\<rparr>"
  let ?t = "\<lambda>p :: jsstring. Inr \<lparr>resp_text = str ''hi'',
      resp_words = Some [\<lparr>tw_word = str ''hi'', tw_start = 2, tw_end = 5 / 2\<rparr>],
      resp_segments = None\<rparr> :: jsstring + VerboseResponse"
  let ?r0 = "\<lparr>index = 0, words = [makeWord (str ''hi'') 2 (5 / 2) (str ''0'')], chunk = ?c0\<rparr>"
  let ?r1 = "\<lparr>index = 1, words = [makeWord (str ''hi'') 102 (205 / 2) (str ''0'')], chunk = ?c1\<rparr>"
  let ?r2 = "\<lparr>index = 2, words = [makeWord (str ''hi'') 252 (505 / 2) (str ''0'')], chunk = ?c2\<rparr>"
  have d: "dispatch ?t [?c0, ?c1, ?c2] = Inr [?r0, ?r1, ?r2]"
    by (simp add: dispatch_def transcribeChunk_def extractWords_def)
  have m: "mset [?r2, ?r0, ?r1] = mset [?r0, ?r1, ?r2]"
    by simp
  have "mergeWords [?r2, ?r0, ?r1] = concat (map (chunkWords ?t) [?c0, ?c1, ?c2])"
    using merge_in_chunk_order [OF d m] by blast
  then show ?thesis by (simp add: chunkWords_def extractWords_def)
qed

text \<open>
  Claim C3: when the transcription call of chunk \<open>k\<close> fails, the dispatch stage still
  returns normally (\<open>Inr\<close>) with one outcome for each chunk; the outcome of chunk \<open>k\<close> has
  the index \<open>k\<close> and no words, and the merged result is the words of the chunks before
  \<open>k\<close> followed by those of the chunks after \<open>k\<close>.
\<close>

theorem failed_chunk_leaves_gap:
  assumes "k < length chunks"
    and "transcribeFile (path (chunks ! k)) = Inl err"
  shows "dispatch transcribeFile chunks = Inr (chunkResults transcribeFile chunks) \<and>
    length (chunkResults transcribeFile chunks) = length chunks \<and>
    chunkResults transcribeFile chunks ! k = \<lparr>index = k, words = [], chunk = chunks ! k\<rparr> \<and>
    transcribeChunks transcribeFile chunks =
      Inr (concat (map (chunkWords transcribeFile) (take k chunks)) @
           concat (map (chunkWords transcribeFile) (drop (Suc k) chunks)))"
proof -
  have w: "chunkWords transcribeFile (chunks ! k) = []"
    using assms(2) by (simp add: chunkWords_def)
  have "chunks = take k chunks @ chunks ! k # drop (Suc k) chunks"
    using assms(1) by (rule id_take_nth_drop)
  then have "concat (map (chunkWords transcribeFile) chunks) =
      concat (map (chunkWords transcribeFile) (take k chunks)) @
      chunkWords transcribeFile (chunks ! k) @
      concat (map (chunkWords transcribeFile) (drop (Suc k) chunks))"
    by (metis concat.simps(2) concat_append list.simps(9) map_append)
  moreover have "mergeWords (chunkResults transcribeFile chunks) =
      concat (map (chunkWords transcribeFile) chunks)"
    by (rule mergeWords_completed) simp
  ultimately have "transcribeChunks transcribeFile chunks =
      Inr (concat (map (chunkWords transcribeFile) (take k chunks)) @
           concat (map (chunkWords transcribeFile) (drop (Suc k) chunks)))"
    by (simp add: transcribeChunks_def dispatch_results w)
  then show ?thesis
    using assms(1) by (simp add: dispatch_results chunkResults_def nth_enumerate_eq w)
qed

text \<open>Three chunks, the second of which fails.\<close>

theorem failed_chunk_leaves_gap_witness:
  "dispatch
     (\<lambda>p. if p = (str ''c1.wav'') then Inl (str ''timeout'')
          else Inr \<lparr>resp_text = str ''hi'',
                 resp_words = Some [\<lparr>tw_word = str ''hi'', tw_start = 2, tw_end = 5 / 2\<rparr>],
                 resp_segments = None\<rparr>)
     [\<lparr>path = str ''c0.wav'', startOffset = 0, duration = 100\<rparr>,
      \<lparr>path = str ''c1.wav'', startOffset = 100, duration = 150\<rparr>,
      \<lparr>path = str ''c2.wav'', startOffset = 250, duration = 50\<rparr>]
   = Inr [\<lparr>index = 0, words = [makeWord (str ''hi'') 2 (5 / 2) (str ''0'')],
            chunk = \<lparr>path = str ''c0.wav'', startOffset = 0, duration = 100\<rparr>\<rparr>,
          \<lparr>index = 1, words = [],
            chunk = \<lparr>path = str ''c1.wav'', startOffset = 100, duration = 150\<rparr>\<rparr>,
          \<lparr>index = 2, words = [makeWord (str ''hi'') 252 (505 / 2) (str ''0'')],
            chunk = \<lparr>path = str ''c2.wav'', startOffset = 250, duration = 50\<rparr>\<rparr>] \<and>
   transcribeChunks
     (\<lambda>p. if p = (str ''c1.wav'') then Inl (str ''timeout'')
          else Inr \<lparr>resp_text = str ''hi'',
                 resp_words = Some [\<lparr>tw_word = str ''hi'', tw_start = 2, tw_end = 5 / 2\<rparr>],
                 resp_segments = None\<rparr>)
     [\<lparr>path = str ''c0.wav'', startOffset = 0, duration = 100\<rparr>,
      \<lparr>path = str ''c1.wav'', startOffset = 100, duration = 150\<rparr>,
      \<lparr>path = str ''c2.wav'', startOffset = 250, duration = 50\<rparr>]
   = Inr [makeWord (str ''hi'') 2 (5 / 2) (str ''0''), makeWord (str ''hi'') 252 (505 / 2) (str ''0'')]"
proof -
  let ?c0 = "\<lparr>path = str ''c0.wav'', startOffset = 0, duration = 100\<rparr>"
  let ?c1 = "\<lparr>path = str ''c1.wav'', startOffset = 100, duration = 150\<rparr>"
  let ?c2 = "\<lparr>path = str ''c2.wav'', startOffset = 250, duration = 50\<rparr>"
  let ?t = "\<lambda>p. if p = (str ''c1.wav'') then Inl (str ''timeout'')
          else Inr \<lparr>resp_text = str ''hi'',
                 resp_words = Some [\<lparr>tw_word = str ''hi'', tw_start = 2, tw_end = 5 / 2\<rparr>],
                 resp_segments = None\<rparr>"
  have k: "1 < length [?c0, ?c1, ?c2]" by simp
  have f: "?t (path ([?c0, ?c1, ?c2] ! 1)) = Inl (str ''timeout'')" by simp
  note th = failed_chunk_leaves_gap [of 1 "[?c0, ?c1, ?c2]" ?t "(str ''timeout'')", OF k f]
  have 1: "dispatch ?t [?c0, ?c1, ?c2] = Inr (chunkResults ?t [?c0, ?c1, ?c2])"
    using th by blast
  have 2: "transcribeChunks ?t [?c0, ?c1, ?c2] =
      Inr (concat (map (chunkWords ?t) (take 1 [?c0, ?c1, ?c2])) @
           concat (map (chunkWords ?t) (drop (Suc 1) [?c0, ?c1, ?c2])))"
    using th by blast
  show ?thesis
    unfolding 1 2 by (simp add: chunkResults_def chunkWords_def extractWords_def)
qed

section \<open>Split planning\<close>

lemma scanSilences_step:
  "scanSilences (s # ss) target w b =
     scanSilences ss target w
       (if \<bar>sil_start s - target\<bar> \<le> w \<and>
           (case snd b of None \<Rightarrow> True | Some d \<Rightarrow> \<bar>sil_start s - target\<bar> < d)
        then (Some s, Some \<bar>sil_start s - target\<bar>) else b)"
  by (cases b) (auto simp: Let_def abs_le_iff)

lemma bestAmong_step:
  assumes "bestAmong seen target w b"
  shows "bestAmong (seen @ [s]) target w
       (if \<bar>sil_start s - target\<bar> \<le> w \<and>
           (case snd b of None \<Rightarrow> True | Some d \<Rightarrow> \<bar>sil_start s - target\<bar> < d)
        then (Some s, Some \<bar>sil_start s - target\<bar>) else b)"
  using assms
  by (cases b; cases "fst b") (auto simp: bestAmong_def inWindow_def filter_empty_conv)

lemma bestAmong_scan:
  "bestAmong seen target w b \<Longrightarrow> bestAmong (seen @ ss) target w (scanSilences ss target w b)"
proof (induction ss arbitrary: seen b)
  case Nil
  then show ?case by simp
next
  case (Cons s ss)
  have "bestAmong ((seen @ [s]) @ ss) target w
      (scanSilences ss target w
        (if \<bar>sil_start s - target\<bar> \<le> w \<and>
            (case snd b of None \<Rightarrow> True | Some d \<Rightarrow> \<bar>sil_start s - target\<bar> < d)
         then (Some s, Some \<bar>sil_start s - target\<bar>) else b))"
    by (rule Cons.IH) (rule bestAmong_step [OF Cons.prems])
  then show ?case by (simp only: scanSilences_step append_assoc append_Cons append_Nil)
qed

lemma bestAmong_scan_all:
  "bestAmong silences target w (scanSilences silences target w (None, None))"
  using bestAmong_scan [of "[]" target w "(None, None)" silences]
  by (simp add: bestAmong_def inWindow_def)

lemma windowsFrom_30: "windowsFrom 30 = [30, 60, 90, 120, 150, 180]"
  by (simp add: windowsFrom.simps)

lemma windowLoop_found: "windowLoop silences target w (Some s, bd) = (Some s, bd)"
  by (simp add: windowLoop.simps)

lemma windowLoop_find:
  "windowLoop silences target w (None, None) =
     (case find (\<lambda>v. inWindow silences target (real v) \<noteq> []) (windowsFrom w) of
        None \<Rightarrow> (None, None)
      | Some v \<Rightarrow> scanSilences silences target (real v) (None, None))"
proof (induction "181 - w" arbitrary: w rule: less_induct)
  case less
  show ?case
  proof (cases "w \<le> 180")
    case False
    then have "windowsFrom w = []" by (simp add: windowsFrom.simps)
    moreover have "windowLoop silences target w (None, None) = (None, None)"
      using False by (simp add: windowLoop.simps)
    ultimately show ?thesis by simp
  next
    case True
    let ?b = "scanSilences silences target (real w) (None, None)"
    have wf: "windowsFrom w = w # windowsFrom (w + 30)"
      using True by (simp add: windowsFrom.simps)
    have step: "windowLoop silences target w (None, None) = windowLoop silences target (w + 30) ?b"
      using True by (simp add: windowLoop.simps)
    have inv: "bestAmong silences target (real w) ?b" by (rule bestAmong_scan_all)
    show ?thesis
    proof (cases "inWindow silences target (real w) = []")
      case True
      then have "?b = (None, None)"
        using inv by (cases ?b; cases "fst ?b") (auto simp: bestAmong_def)
      moreover have "181 - (w + 30) < 181 - w" using \<open>w \<le> 180\<close> by simp
      ultimately show ?thesis
        using less.hyps [of "w + 30"] True by (simp add: step wf)
    next
      case False
      then obtain s bd where b: "?b = (Some s, bd)"
        using inv by (cases ?b; cases "fst ?b") (auto simp: bestAmong_def)
      show ?thesis using False by (simp add: step wf b windowLoop_found)
    qed
  qed
qed

lemma find_SomeD: "find P xs = Some x \<Longrightarrow> x \<in> set xs \<and> P x"
  by (induction xs) (auto split: if_splits)

lemma chooseSplit_cases:
  "(case find (\<lambda>w. inWindow silences target (real w) \<noteq> []) [30, 60, 90, 120, 150, 180] of
      None \<Rightarrow> chooseSplit silences target = target
    | Some w \<Rightarrow>
        chooseSplit silences target \<in> sil_start ` set (inWindow silences target (real w)) \<and>
        (\<forall>s \<in> set (inWindow silences target (real w)).
           \<bar>chooseSplit silences target - target\<bar> \<le> \<bar>sil_start s - target\<bar>))"
proof (cases "find (\<lambda>w. inWindow silences target (real w) \<noteq> []) [30, 60, 90, 120, 150, 180]")
  case None
  then have "windowLoop silences target 30 (None, None) = (None, None)"
    by (simp only: windowLoop_find windowsFrom_30 option.case)
  then show ?thesis by (simp only: None option.case chooseSplit_def fst_conv)
next
  case (Some w)
  let ?b = "scanSilences silences target (real w) (None, None)"
  have loop: "windowLoop silences target 30 (None, None) = ?b"
    by (simp only: windowLoop_find windowsFrom_30 Some option.case)
  have ne: "inWindow silences target (real w) \<noteq> []"
    using Some by (rule find_SomeD [THEN conjunct2])
  have inv: "bestAmong silences target (real w) ?b" by (rule bestAmong_scan_all)
  then obtain s where s: "fst ?b = Some s" "s \<in> set (inWindow silences target (real w))"
    "\<forall>s' \<in> set (inWindow silences target (real w)).
       \<bar>sil_start s - target\<bar> \<le> \<bar>sil_start s' - target\<bar>"
    using ne by (cases "fst ?b") (auto simp: bestAmong_def)
  have c: "chooseSplit silences target = sil_start s"
    by (simp add: chooseSplit_def loop s(1))
  show ?thesis using s(2,3) by (simp only: Some option.case c) blast
qed

lemma chooseSplit_fallback:
  assumes "inWindow silences target 180 = []"
  shows "chooseSplit silences target = target"
proof -
  have "inWindow silences target (real w) = []" if "w \<le> 180" for w
  proof -
    have "\<bar>sil_start s - target\<bar> \<le> real w \<Longrightarrow> \<bar>sil_start s - target\<bar> \<le> 180" for s
      using that by simp
    then show ?thesis
      using assms unfolding inWindow_def filter_empty_conv by blast
  qed
  note h = this
  have "inWindow silences target 30 = []" "inWindow silences target 60 = []"
    "inWindow silences target 90 = []" "inWindow silences target 120 = []"
    "inWindow silences target 150 = []"
    using h [of 30] h [of 60] h [of 90] h [of 120] h [of 150] by simp_all
  then have "find (\<lambda>w. inWindow silences target (real w) \<noteq> []) [30, 60, 90, 120, 150, 180] = None"
    using assms by simp
  then show ?thesis using chooseSplit_cases [of silences target] by simp
qed

lemma chooseSplit_near: "\<bar>chooseSplit silences target - target\<bar> \<le> 180"
proof (cases "find (\<lambda>w. inWindow silences target (real w) \<noteq> []) [30, 60, 90, 120, 150, 180]")
  case None
  then show ?thesis using chooseSplit_cases [of silences target] by simp
next
  case (Some w)
  then have "w \<in> set [30, 60, 90, 120, 150, 180]" by (rule find_SomeD [THEN conjunct1])
  then have w: "real w \<le> 180" by auto
  obtain s where "s \<in> set (inWindow silences target (real w))" "chooseSplit silences target = sil_start s"
    using chooseSplit_cases [of silences target] Some by auto
  then have "\<bar>chooseSplit silences target - target\<bar> \<le> real w"
    by (simp add: inWindow_def)
  then show ?thesis using w by linarith
qed

lemma splitLoop_eq:
  assumes c: "0 < c"
  shows "splitLoop silences totalDuration c target splits =
     Some (splits @ map (\<lambda>k. chooseSplit silences (target + real k * c))
                      [0..<nat \<lceil>(totalDuration - target) / c\<rceil>])"
proof (induction "nat \<lceil>(totalDuration - target) / c\<rceil>" arbitrary: target splits)
  case 0
  then have "\<lceil>(totalDuration - target) / c\<rceil> \<le> 0" by simp
  then have "(totalDuration - target) / c \<le> 0" by (simp add: ceiling_le_iff)
  then have "totalDuration - target \<le> 0" using c by (simp add: divide_le_0_iff)
  then have "\<not> target < totalDuration" by simp
  then have "splitLoop silences totalDuration c target splits = Some splits"
    by (subst splitLoop.simps) simp
  then show ?case using 0 by simp
next
  case (Suc n)
  let ?x = "(totalDuration - target) / c"
  have cx: "\<lceil>?x\<rceil> = int n + 1" using Suc.hyps(2) by linarith
  then have "0 < \<lceil>?x\<rceil>" by simp
  then have "0 < ?x" by (simp add: ceiling_less_iff less_ceiling_iff)
  then have lt: "target < totalDuration" using c by (simp add: zero_less_divide_iff)
  have "(totalDuration - (target + c)) / c = ?x - 1" using c by (simp add: field_simps)
  then have "nat \<lceil>(totalDuration - (target + c)) / c\<rceil> = nat (\<lceil>?x\<rceil> - 1)" by simp
  then have n: "n = nat \<lceil>(totalDuration - (target + c)) / c\<rceil>" using cx by simp
  have IH: "splitLoop silences totalDuration c (target + c) (splits @ [chooseSplit silences target]) =
      Some ((splits @ [chooseSplit silences target]) @
            map (\<lambda>k. chooseSplit silences (target + c + real k * c)) [0..<n])"
    using Suc.hyps(1) [OF n] n by simp
  have step: "splitLoop silences totalDuration c target splits =
      splitLoop silences totalDuration c (target + c) (splits @ [chooseSplit silences target])"
    using lt by (subst splitLoop.simps) simp
  have "[0..<Suc n] = 0 # map Suc [0..<n]"
    by (simp only: map_Suc_upt upt_conv_Cons zero_less_Suc)
  then have "map (\<lambda>k. chooseSplit silences (target + real k * c)) [0..<Suc n] =
      chooseSplit silences target # map (\<lambda>k. chooseSplit silences (target + c + real k * c)) [0..<n]"
    by (simp add: comp_def algebra_simps)
  then show ?case
    unfolding step IH Suc.hyps(2) [symmetric] by simp
qed

lemma findSplitPoints_eq:
  assumes c: "0 < chunkSec"
  shows "findSplitPoints silences totalDuration chunkSec =
     Some (0 # map (chooseSplit silences) (checkpoints totalDuration chunkSec))"
proof -
  let ?N = "nat \<lceil>totalDuration / chunkSec\<rceil>"
  have "(totalDuration - chunkSec) / chunkSec = totalDuration / chunkSec - 1"
    using c by (simp add: field_simps)
  then have "nat \<lceil>(totalDuration - chunkSec) / chunkSec\<rceil> = ?N - 1"
    by simp
  then have 1: "findSplitPoints silences totalDuration chunkSec =
      Some ([0] @ map (\<lambda>k. chooseSplit silences (chunkSec + real k * chunkSec)) [0..<?N - 1])"
    unfolding findSplitPoints_def by (simp only: splitLoop_eq [OF c])
  have "[1..<?N] = map Suc [0..<?N - 1]"
    by (cases ?N) (simp_all add: map_Suc_upt del: upt_Suc)
  then have "map (chooseSplit silences) (checkpoints totalDuration chunkSec) =
      map (\<lambda>k. chooseSplit silences (chunkSec + real k * chunkSec)) [0..<?N - 1]"
    unfolding checkpoints_def by (simp add: comp_def algebra_simps)
  then show ?thesis unfolding 1 by simp
qed

lemma checkpoints_increasing:
  assumes c: "360 < chunkSec"
  shows "sorted_wrt (<) (0 # map (chooseSplit silences) (checkpoints totalDuration chunkSec))"
proof -
  let ?g = "\<lambda>k. chooseSplit silences (real k * chunkSec)"
  let ?N = "nat \<lceil>totalDuration / chunkSec\<rceil>"
  have lo: "real k * chunkSec - 180 \<le> ?g k" and hi: "?g k \<le> real k * chunkSec + 180" for k
    using chooseSplit_near [of silences "real k * chunkSec"] by (simp_all add: abs_le_iff)
  have pos: "0 < ?g k" if "1 \<le> k" for k
  proof -
    have "1 * chunkSec \<le> real k * chunkSec"
      using that c by (intro mult_right_mono) simp_all
    then have "chunkSec \<le> real k * chunkSec" by simp
    then show ?thesis using lo [of k] c by linarith
  qed
  have mono: "?g i < ?g j" if "i < j" for i j
  proof -
    have "real (i + 1) * chunkSec \<le> real j * chunkSec"
      using that c by (intro mult_right_mono) simp_all
    then have "real i * chunkSec + chunkSec \<le> real j * chunkSec"
      by (simp add: algebra_simps)
    then show ?thesis using hi [of i] lo [of j] c by linarith
  qed
  have "sorted_wrt (<) [1..<?N]" by simp
  then have "sorted_wrt (\<lambda>i j. ?g i < ?g j) [1..<?N]"
    by (rule sorted_wrt_mono_rel [rotated]) (rule mono)
  then have s1: "sorted_wrt (<) (map ?g [1..<?N])"
    by (simp only: sorted_wrt_map)
  have s2: "\<forall>x \<in> set (map ?g [1..<?N]). 0 < x"
    using pos by auto
  have eq: "map (chooseSplit silences) (checkpoints totalDuration chunkSec) = map ?g [1..<?N]"
    unfolding checkpoints_def by (simp only: map_map comp_def)
  show ?thesis unfolding eq sorted_wrt.simps using s1 s2 by blast
qed

lemma find_NoneD: "find P xs = None \<Longrightarrow> x \<in> set xs \<Longrightarrow> \<not> P x"
  by (induction xs) (auto split: if_splits)

lemma chooseSplit_global:
  "(chooseSplit silences target = target \<and>
      (\<forall>s \<in> set silences. 180 < \<bar>sil_start s - target\<bar>)) \<or>
   (\<exists>s \<in> set silences. chooseSplit silences target = sil_start s \<and>
      \<bar>sil_start s - target\<bar> \<le> 180 \<and>
      (\<forall>s' \<in> set silences. \<bar>sil_start s - target\<bar> \<le> \<bar>sil_start s' - target\<bar>))"
proof (cases "find (\<lambda>w. inWindow silences target (real w) \<noteq> []) [30, 60, 90, 120, 150, 180]")
  case None
  have "\<not> inWindow silences target (real 180) \<noteq> []"
    using None by (rule find_NoneD) simp
  then have "inWindow silences target 180 = []" by simp
  then have "\<forall>s \<in> set silences. 180 < \<bar>sil_start s - target\<bar>"
    unfolding inWindow_def filter_empty_conv by (simp add: not_le)
  moreover have "chooseSplit silences target = target"
    using chooseSplit_cases [of silences target] None by simp
  ultimately show ?thesis by blast
next
  case (Some w)
  then have "w \<in> set [30, 60, 90, 120, 150, 180]" by (rule find_SomeD [THEN conjunct1])
  then have w: "real w \<le> 180" by auto
  from chooseSplit_cases [of silences target] Some
  obtain s where s: "s \<in> set (inWindow silences target (real w))"
      "chooseSplit silences target = sil_start s"
    and least: "\<forall>s' \<in> set (inWindow silences target (real w)).
      \<bar>chooseSplit silences target - target\<bar> \<le> \<bar>sil_start s' - target\<bar>"
    by auto
  have in_s: "s \<in> set silences" and near: "\<bar>sil_start s - target\<bar> \<le> real w"
    using s(1) by (simp_all add: inWindow_def)
  have "\<bar>sil_start s - target\<bar> \<le> \<bar>sil_start s' - target\<bar>" if "s' \<in> set silences" for s'
  proof (cases "\<bar>sil_start s' - target\<bar> \<le> real w")
    case True
    then have "s' \<in> set (inWindow silences target (real w))"
      using that by (simp add: inWindow_def)
    then show ?thesis using least s(2) by auto
  next
    case False
    then show ?thesis using near by linarith
  qed
  then show ?thesis using in_s near w s(2) by (intro disjI2 bexI [of _ s]) auto
qed

lemma chooseSplit_mono:
  assumes "t1 < t2"
  shows "chooseSplit silences t1 \<le> chooseSplit silences t2"
proof -
  note g1 = chooseSplit_global [of silences t1] and g2 = chooseSplit_global [of silences t2]
  from g1 show ?thesis
  proof (elim disjE conjE bexE)
    assume f1: "chooseSplit silences t1 = t1"
      and far1: "\<forall>s \<in> set silences. 180 < \<bar>sil_start s - t1\<bar>"
    from g2 show ?thesis
    proof (elim disjE conjE bexE)
      assume "chooseSplit silences t2 = t2"
      then show ?thesis using f1 assms by simp
    next
      fix s2 assume s2: "s2 \<in> set silences" "chooseSplit silences t2 = sil_start s2"
        "\<bar>sil_start s2 - t2\<bar> \<le> 180"
      have "180 < \<bar>sil_start s2 - t1\<bar>" using far1 s2(1) by blast
      then have "t1 \<le> sil_start s2" using s2(3) assms by linarith
      then show ?thesis unfolding f1 s2(2) .
    qed
  next
    fix s1 assume s1: "s1 \<in> set silences" "chooseSplit silences t1 = sil_start s1"
      "\<bar>sil_start s1 - t1\<bar> \<le> 180"
      and least1: "\<forall>s' \<in> set silences. \<bar>sil_start s1 - t1\<bar> \<le> \<bar>sil_start s' - t1\<bar>"
    from g2 show ?thesis
    proof (elim disjE conjE bexE)
      assume f2: "chooseSplit silences t2 = t2"
        and far2: "\<forall>s \<in> set silences. 180 < \<bar>sil_start s - t2\<bar>"
      have "180 < \<bar>sil_start s1 - t2\<bar>" using far2 s1(1) by blast
      then have "sil_start s1 \<le> t2" using s1(3) assms by linarith
      then show ?thesis unfolding f2 s1(2) .
    next
      fix s2 assume s2: "s2 \<in> set silences" "chooseSplit silences t2 = sil_start s2"
        and least2: "\<forall>s' \<in> set silences. \<bar>sil_start s2 - t2\<bar> \<le> \<bar>sil_start s' - t2\<bar>"
      have a: "\<bar>sil_start s1 - t1\<bar> \<le> \<bar>sil_start s2 - t1\<bar>" using least1 s2(1) by blast
      have b: "\<bar>sil_start s2 - t2\<bar> \<le> \<bar>sil_start s1 - t2\<bar>" using least2 s1(1) by blast
      have "sil_start s1 \<le> sil_start s2" using a b assms by linarith
      then show ?thesis unfolding s1(2) s2(2) .
    qed
  qed
qed

lemma chooseSplit_nonneg:
  assumes "\<forall>s \<in> set silences. 0 \<le> sil_start s" and "0 \<le> target"
  shows "0 \<le> chooseSplit silences target"
  using chooseSplit_global [of silences target] assms by auto

lemma checkpoints_sorted:
  assumes c: "0 < chunkSec"
  shows "sorted (map (chooseSplit silences) (checkpoints totalDuration chunkSec))"
proof -
  let ?g = "\<lambda>k. chooseSplit silences (real k * chunkSec)"
  let ?N = "nat \<lceil>totalDuration / chunkSec\<rceil>"
  have mono: "?g i \<le> ?g j" if "i < j" for i j :: nat
  proof -
    have "real i * chunkSec < real j * chunkSec" using that c by simp
    then show ?thesis by (rule chooseSplit_mono)
  qed
  have "sorted_wrt (<) [1..<?N]" by simp
  then have "sorted_wrt (\<lambda>i j. ?g i \<le> ?g j) [1..<?N]"
    by (rule sorted_wrt_mono_rel [rotated]) (rule mono)
  then have "sorted (map ?g [1..<?N])"
    by (simp only: sorted_wrt_map)
  moreover have "map (chooseSplit silences) (checkpoints totalDuration chunkSec) = map ?g [1..<?N]"
    unfolding checkpoints_def by (simp only: map_map comp_def)
  ultimately show ?thesis by (simp only:)
qed

lemma plan_sorted:
  assumes c: "0 < chunkSec" and nonneg: "\<forall>s \<in> set silences. 0 \<le> sil_start s"
  shows "sorted (0 # map (chooseSplit silences) (checkpoints totalDuration chunkSec))"
proof -
  have "0 \<le> chooseSplit silences (real k * chunkSec)" for k :: nat
    using c by (intro chooseSplit_nonneg [OF nonneg]) simp
  then have "\<forall>x \<in> set (map (chooseSplit silences) (checkpoints totalDuration chunkSec)). 0 \<le> x"
    unfolding checkpoints_def by auto
  then show ?thesis using checkpoints_sorted [OF c] by simp
qed

lemma checkpoints_short_example: "checkpoints 130 60 = [60, 120]"
proof -
  have "nat \<lceil>(130 :: real) / 60\<rceil> = 3" by (simp add: ceiling_divide_eq_div_numeral)
  moreover have "[1..<3] = [1, 2]" by (simp add: upt_rec)
  ultimately show ?thesis by (simp add: checkpoints_def)
qed

lemma checkpoints_example: "checkpoints 1300 600 = [600, 1200]"
proof -
  have "nat \<lceil>(1300 :: real) / 600\<rceil> = 3" by (simp add: ceiling_divide_eq_div_numeral)
  moreover have "[1..<3] = [1, 2]" by (simp add: upt_rec)
  ultimately show ?thesis by (simp add: checkpoints_def)
qed

text \<open>
  A silence that starts before 0 is chosen like any other, and the plan then goes below
  its first offset; the detector's patterns read no sign, so its silences start at 0 or
  later.
\<close>

lemma findSplitPoints_negative_start:
  "findSplitPoints [\<lparr>sil_start = - 50, sil_end = - 47\<rparr>] 130 60 = Some [0, - 50, - 50]"
  by (simp add: findSplitPoints_def splitLoop.simps chooseSplit_def windowLoop.simps)

text \<open>
  Claim C5, as the code has it: for every silence list, every total duration and every
  positive chunk length the planner returns, and the offsets it returns start with 0. The
  offset chosen for a checkpoint is the nearest silence start, or the checkpoint, so it
  never decreases from one checkpoint to the next: the offsets chosen for the checkpoints
  are in non-decreasing order, and with them the whole plan when no silence starts before
  0 (the detector's patterns read no sign). Two checkpoints can choose the same silence,
  so two consecutive offsets can be equal. They are strictly increasing when the chunk
  length is above 360 seconds, twice the widest window (as the default of 600 seconds
  is), so that the windows of two checkpoints cannot meet.
\<close>

theorem findSplitPoints_increasing:
  assumes "0 < chunkSec"
  shows "findSplitPoints silences totalDuration chunkSec =
      Some (0 # map (chooseSplit silences) (checkpoints totalDuration chunkSec)) \<and>
    sorted (map (chooseSplit silences) (checkpoints totalDuration chunkSec)) \<and>
    ((\<forall>s \<in> set silences. 0 \<le> sil_start s) \<longrightarrow>
       sorted (0 # map (chooseSplit silences) (checkpoints totalDuration chunkSec))) \<and>
    (360 < chunkSec \<longrightarrow>
       sorted_wrt (<) (0 # map (chooseSplit silences) (checkpoints totalDuration chunkSec)))"
  using findSplitPoints_eq [OF assms] checkpoints_sorted [OF assms] plan_sorted [OF assms]
    checkpoints_increasing
  by blast

text \<open>
  A chunk length of 600 seconds, and a silence 50 seconds after the first checkpoint; and a
  chunk length of 60 seconds, where both checkpoints choose the silence at 100 seconds.
\<close>

theorem findSplitPoints_increasing_witness:
  "findSplitPoints [\<lparr>sil_start = 650, sil_end = 653\<rparr>] 1300 600 = Some [0, 650, 1200] \<and>
   sorted_wrt (<) [0, 650, 1200 :: real] \<and>
   findSplitPoints [\<lparr>sil_start = 100, sil_end = 103\<rparr>] 130 60 = Some [0, 100, 100] \<and>
   sorted [0, 100, 100 :: real]"
proof -
  let ?sil = "[\<lparr>sil_start = 650, sil_end = 653\<rparr>]"
  let ?one = "[\<lparr>sil_start = 100, sil_end = 103\<rparr>]"
  have c: "chooseSplit ?sil 600 = 650" "chooseSplit ?sil 1200 = 1200"
    "chooseSplit ?one 60 = 100" "chooseSplit ?one 120 = 100"
    by (simp_all add: chooseSplit_def windowLoop.simps)
  have pos: "(0 :: real) < 600" "(0 :: real) < 60" by simp_all
  note th = findSplitPoints_increasing [OF pos(1), of ?sil 1300]
  note th' = findSplitPoints_increasing [OF pos(2), of ?one 130]
  have 1: "findSplitPoints ?sil 1300 600 = Some (0 # map (chooseSplit ?sil) (checkpoints 1300 600))"
    using th by (rule conjunct1)
  have "sorted_wrt (<) (0 # map (chooseSplit ?sil) (checkpoints 1300 600))"
    using th by simp
  then have 2: "sorted_wrt (<) [0, 650, 1200 :: real]"
    by (simp only: checkpoints_example list.map c)
  have 3: "findSplitPoints ?sil 1300 600 = Some [0, 650, 1200]"
    unfolding 1 by (simp only: checkpoints_example list.map c)
  have 4: "findSplitPoints ?one 130 60 = Some (0 # map (chooseSplit ?one) (checkpoints 130 60))"
    using th' by (rule conjunct1)
  have "sorted (0 # map (chooseSplit ?one) (checkpoints 130 60))"
    using th' by simp
  then have 5: "sorted [0, 100, 100 :: real]"
    by (simp only: checkpoints_short_example list.map c)
  have 6: "findSplitPoints ?one 130 60 = Some [0, 100, 100]"
    unfolding 4 by (simp only: checkpoints_short_example list.map c)
  show ?thesis using 2 3 5 6 by blast
qed

text \<open>
  Claim C5 as it is stated, for every positive chunk length, fails: with chunks of 60
  seconds (\<^verbatim>\<open>--chunk-duration 1\<close>), an audio of 130 seconds and one silence that starts at
  100 seconds, both checkpoints, 60 and 120, choose the offset 100.
\<close>

theorem findSplitPoints_increasing_counterexample:
  "findSplitPoints [\<lparr>sil_start = 100, sil_end = 103\<rparr>] 130 60 = Some [0, 100, 100] \<and>
   \<not> sorted_wrt (<) [0, 100, 100 :: real]"
  by (simp add: findSplitPoints_def splitLoop.simps chooseSplit_def windowLoop.simps)

text \<open>
  Claim C6: for a checkpoint, the offset chosen is the start of a silence that is nearest
  to the checkpoint among the silences within the first of the windows of 30, 60, ..., 180
  seconds that holds a silence start (wider windows are not looked at), and it is the
  checkpoint itself when no silence starts within 180 seconds of it; the plan is 0
  followed by the offsets chosen for the checkpoints, in order.
\<close>

theorem chooseSplit_nearest_in_first_window:
  "(case find (\<lambda>w. inWindow silences target (real w) \<noteq> []) [30, 60, 90, 120, 150, 180] of
      None \<Rightarrow> chooseSplit silences target = target
    | Some w \<Rightarrow>
        chooseSplit silences target \<in> sil_start ` set (inWindow silences target (real w)) \<and>
        (\<forall>s \<in> set (inWindow silences target (real w)).
           \<bar>chooseSplit silences target - target\<bar> \<le> \<bar>sil_start s - target\<bar>)) \<and>
   (inWindow silences target 180 = [] \<longrightarrow> chooseSplit silences target = target) \<and>
   (0 < chunkSec \<longrightarrow>
      findSplitPoints silences totalDuration chunkSec =
        Some (0 # map (chooseSplit silences) (checkpoints totalDuration chunkSec)))"
  using chooseSplit_cases [of silences target] chooseSplit_fallback [of silences target]
    findSplitPoints_eq [of chunkSec silences totalDuration]
  by blast

text \<open>
  The checkpoint 600: a silence at 615 is found in the window of 30 seconds, one at 650 in
  the window of 60; of the silences at 575, 650 and 620 the one at 620 is chosen; a silence
  at 900 is out of reach.
\<close>

theorem chooseSplit_nearest_in_first_window_witness:
  "chooseSplit [\<lparr>sil_start = 615, sil_end = 618\<rparr>] 600 = 615 \<and>
   chooseSplit [\<lparr>sil_start = 650, sil_end = 653\<rparr>] 600 = 650 \<and>
   chooseSplit [\<lparr>sil_start = 575, sil_end = 578\<rparr>, \<lparr>sil_start = 650, sil_end = 653\<rparr>,
                \<lparr>sil_start = 620, sil_end = 623\<rparr>] 600 = 620 \<and>
   chooseSplit [\<lparr>sil_start = 900, sil_end = 903\<rparr>] 600 = 600 \<and>
   findSplitPoints [\<lparr>sil_start = 650, sil_end = 653\<rparr>] 1300 600 = Some [0, 650, 1200]"
proof -
  let ?a = "[\<lparr>sil_start = 615, sil_end = 618\<rparr>]"
  let ?b = "[\<lparr>sil_start = 650, sil_end = 653\<rparr>]"
  let ?c = "[\<lparr>sil_start = 575, sil_end = 578\<rparr>, \<lparr>sil_start = 650, sil_end = 653\<rparr>,
             \<lparr>sil_start = 620, sil_end = 623\<rparr>]"
  let ?d = "[\<lparr>sil_start = 900, sil_end = 903\<rparr>]"
  let ?W = "[30, 60, 90, 120, 150, 180] :: nat list"
  have fa: "find (\<lambda>w. inWindow ?a 600 (real w) \<noteq> []) ?W = Some 30"
    and fb: "find (\<lambda>w. inWindow ?b 600 (real w) \<noteq> []) ?W = Some 60"
    and fc: "find (\<lambda>w. inWindow ?c 600 (real w) \<noteq> []) ?W = Some 30"
    and fd: "inWindow ?d 600 180 = []"
    by (simp_all add: inWindow_def)
  have a: "chooseSplit ?a 600 = 615"
    using chooseSplit_nearest_in_first_window [of ?a 600, THEN conjunct1]
    unfolding fa by (simp add: inWindow_def)
  have b: "chooseSplit ?b 600 = 650"
    using chooseSplit_nearest_in_first_window [of ?b 600, THEN conjunct1]
    unfolding fb by (simp add: inWindow_def)
  have c: "chooseSplit ?c 600 = 620"
    using chooseSplit_nearest_in_first_window [of ?c 600, THEN conjunct1]
    unfolding fc by (auto simp: inWindow_def)
  have d: "chooseSplit ?d 600 = 600"
    using chooseSplit_nearest_in_first_window [of ?d 600, THEN conjunct2, THEN conjunct1] fd
    by simp
  have "chooseSplit ?b 1200 = 1200"
    using chooseSplit_nearest_in_first_window [of ?b 1200, THEN conjunct2, THEN conjunct1]
    by (simp add: inWindow_def)
  moreover have "findSplitPoints ?b 1300 600 = Some (0 # map (chooseSplit ?b) (checkpoints 1300 600))"
    using chooseSplit_nearest_in_first_window
      [where silences = ?b and chunkSec = 600 and totalDuration = 1300 and target = 0,
        THEN conjunct2, THEN conjunct2]
    by simp
  ultimately have e: "findSplitPoints ?b 1300 600 = Some [0, 650, 1200]"
    by (simp only: checkpoints_example list.map b)
  show ?thesis using a b c d e by simp
qed

section \<open>Silence detection\<close>

text \<open>
  The loop pairs each end marker it reads with the start marker it read right before, and
  a start marker it reads with no end marker after it gives no interval.
\<close>

lemma scanLines_pairUp:
  "scanLines parseFloat lines currentStart silences =
     silences @ pairUp ((case currentStart of None \<Rightarrow> [] | Some s \<Rightarrow> [SilenceStart s]) @
                        markers parseFloat lines)"
proof (induction lines arbitrary: currentStart silences)
  case Nil
  then show ?case by (simp add: markers_def split: option.splits)
next
  case (Cons line rest)
  show ?case
  proof (cases "lineMarker parseFloat line")
    case (SilenceStart x)
    then obtain cap where "matchMarker (str ''silence_start:'') line = Some cap" "x = parseFloat cap"
      by (auto simp: lineMarker_def split: option.splits)
    then show ?thesis
      using SilenceStart by (simp add: Cons.IH markers_def split: option.splits)
  next
    case (SilenceEnd y)
    then obtain cap where "matchMarker (str ''silence_start:'') line = None"
      "matchMarker (str ''silence_end:'') line = Some cap" "y = parseFloat cap"
      by (auto simp: lineMarker_def split: option.splits)
    then show ?thesis
      using SilenceEnd by (simp add: Cons.IH markers_def split: option.splits)
  next
    case NoMarker
    then have "matchMarker (str ''silence_start:'') line = None" "matchMarker (str ''silence_end:'') line = None"
      by (auto simp: lineMarker_def split: option.splits)
    then show ?thesis
      using NoMarker by (simp add: Cons.IH markers_def split: option.splits)
  qed
qed

lemma detectSilences_pairUp:
  "detectSilences parseFloat text = pairUp (markers parseFloat (splitOn (ch CHR 0x0A) [] text))"
  by (simp add: detectSilences_def scanLines_pairUp)

lemma pairUp_trailing_start: "pairUp (ms @ [SilenceStart s]) = pairUp ms"
  by (induction ms rule: pairUp.induct) auto

text \<open>
  The two patterns read a number made of digits and dots only. On a start line whose
  number has a sign, as the detector prints for a silence at the very beginning of the
  audio, the start pattern finds nothing to capture at the keyword and nowhere else.
\<close>

lemma signed_start_unread:
  "matchMarker (str ''silence_start:'') (str ''[silencedetect @ 0x1] silence_start: -0.00133333'') = None"
  by (simp add: matchAt_def isSpace_def isNumChar_def isDigit_def)

lemma scan_signed_start:
  "detectSilences parseFloat
     (str ''[silencedetect @ 0x1] silence_start: -0.00133333'' @ [ch CHR 0x0A] @
      str ''[silencedetect @ 0x1] silence_end: 2.5 | silence_duration: 2.50133'' @ [ch CHR 0x0A] @
      str ''[silencedetect @ 0x1] silence_start: 10.5'' @ [ch CHR 0x0A] @
      str ''[silencedetect @ 0x1] silence_end: 13.25 | silence_duration: 2.75'')
   = [\<lparr>sil_start = parseFloat (str ''10.5''), sil_end = parseFloat (str ''13.25'')\<rparr>]"
proof -
  let ?l1 = "str ''[silencedetect @ 0x1] silence_start: -0.00133333''"
  let ?l2 = "str ''[silencedetect @ 0x1] silence_end: 2.5 | silence_duration: 2.50133''"
  let ?l3 = "str ''[silencedetect @ 0x1] silence_start: 10.5''"
  let ?l4 = "str ''[silencedetect @ 0x1] silence_end: 13.25 | silence_duration: 2.75''"
  have lines: "splitOn (ch CHR 0x0A) [] (?l1 @ [ch CHR 0x0A] @ ?l2 @ [ch CHR 0x0A] @ ?l3 @
      [ch CHR 0x0A] @ ?l4) = [?l1, ?l2, ?l3, ?l4]"
    by simp
  have s1: "matchMarker (str ''silence_start:'') ?l1 = None"
    and e1: "matchMarker (str ''silence_end:'') ?l1 = None"
    and s2: "matchMarker (str ''silence_start:'') ?l2 = None"
    and e2: "matchMarker (str ''silence_end:'') ?l2 = Some (str ''2.5'')"
    and s3: "matchMarker (str ''silence_start:'') ?l3 = Some (str ''10.5'')"
    and s4: "matchMarker (str ''silence_start:'') ?l4 = None"
    and e4: "matchMarker (str ''silence_end:'') ?l4 = Some (str ''13.25'')"
    by (simp_all add: matchAt_def isSpace_def isNumChar_def isDigit_def)
  show ?thesis
    unfolding detectSilences_def lines
    by (simp only: scanLines.simps s1 e1 s2 e2 s3 s4 e4 option.case prod.case append_Nil)
qed

lemma readDecimal_examples:
  "readDecimal (str ''10.5'') = 21 / 2" "readDecimal (str ''13.25'') = 53 / 4"
  by (simp_all add: readDecimal_def readNat_def digitVal_def isDigit_def Let_def)

text \<open>
  Claim C9: for every textual event stream the parser gives one interval for each pair of
  a start marker and the end marker that follows it, and a start marker at the end of the
  stream with no end marker gives none. The code does not do so on a stream whose start
  marker carries a signed number: the log below has four marker lines, start, end, start,
  end, that is two pairs, and the parser gives one interval only. The first start line is
  not read, so the first end line finds no start pending and is passed over.
\<close>

theorem detectSilences_signed_start:
  "splitOn (ch CHR 0x0A) []
     (str ''[silencedetect @ 0x1] silence_start: -0.00133333'' @ [ch CHR 0x0A] @
      str ''[silencedetect @ 0x1] silence_end: 2.5 | silence_duration: 2.50133'' @ [ch CHR 0x0A] @
      str ''[silencedetect @ 0x1] silence_start: 10.5'' @ [ch CHR 0x0A] @
      str ''[silencedetect @ 0x1] silence_end: 13.25 | silence_duration: 2.75'')
   = [str ''[silencedetect @ 0x1] silence_start: -0.00133333'',
      str ''[silencedetect @ 0x1] silence_end: 2.5 | silence_duration: 2.50133'',
      str ''[silencedetect @ 0x1] silence_start: 10.5'',
      str ''[silencedetect @ 0x1] silence_end: 13.25 | silence_duration: 2.75''] \<and>
   map (containsMarker (str ''silence_start:''))
     [str ''[silencedetect @ 0x1] silence_start: -0.00133333'',
      str ''[silencedetect @ 0x1] silence_end: 2.5 | silence_duration: 2.50133'',
      str ''[silencedetect @ 0x1] silence_start: 10.5'',
      str ''[silencedetect @ 0x1] silence_end: 13.25 | silence_duration: 2.75'']
   = [True, False, True, False] \<and>
   map (containsMarker (str ''silence_end:''))
     [str ''[silencedetect @ 0x1] silence_start: -0.00133333'',
      str ''[silencedetect @ 0x1] silence_end: 2.5 | silence_duration: 2.50133'',
      str ''[silencedetect @ 0x1] silence_start: 10.5'',
      str ''[silencedetect @ 0x1] silence_end: 13.25 | silence_duration: 2.75'']
   = [False, True, False, True] \<and>
   detectSilences readDecimal
     (str ''[silencedetect @ 0x1] silence_start: -0.00133333'' @ [ch CHR 0x0A] @
      str ''[silencedetect @ 0x1] silence_end: 2.5 | silence_duration: 2.50133'' @ [ch CHR 0x0A] @
      str ''[silencedetect @ 0x1] silence_start: 10.5'' @ [ch CHR 0x0A] @
      str ''[silencedetect @ 0x1] silence_end: 13.25 | silence_duration: 2.75'')
   = [\<lparr>sil_start = 21 / 2, sil_end = 53 / 4\<rparr>]"
proof (intro conjI)
  show "detectSilences readDecimal
     (str ''[silencedetect @ 0x1] silence_start: -0.00133333'' @ [ch CHR 0x0A] @
      str ''[silencedetect @ 0x1] silence_end: 2.5 | silence_duration: 2.50133'' @ [ch CHR 0x0A] @
      str ''[silencedetect @ 0x1] silence_start: 10.5'' @ [ch CHR 0x0A] @
      str ''[silencedetect @ 0x1] silence_end: 13.25 | silence_duration: 2.75'')
   = [\<lparr>sil_start = 21 / 2, sil_end = 53 / 4\<rparr>]"
    unfolding scan_signed_start readDecimal_examples ..
qed simp_all

end
